theory Spec2Isabelle
  imports Complex_Main "HOL-Library.Multiset"
begin

section \<open>The world outside the program\<close>

text \<open>
  \<^verbatim>\<open>bitscore-vs-identity.py\<close> draws random numbers (\<^verbatim>\<open>random.choice\<close>,
  \<^verbatim>\<open>random.shuffle\<close>) and runs the external program \<^verbatim>\<open>diamond\<close>. Both are inputs
  the program does not control, so the model reads them from two tapes:
  \<^item> \<open>rng\<close>: the natural numbers the random generator hands out, one per call of its
    \<^verbatim>\<open>_randbelow(n)\<close>, which the model reduces modulo \<open>n\<close>;
  \<^item> \<open>diamond\<close>: what each run of \<^verbatim>\<open>diamond blastx\<close> does, in the order of the runs.
  A function that needs an entry of an empty tape has the value \<open>None\<close>: the model
  says nothing about a run that long. Every raise of the source is a value.
\<close>

datatype error =
    AssertionError
  | IndexError
  | KeyError
  | ValueError
  | ZeroDivisionError
  | CalledProcessError
  | StopIteration

text \<open>
  One run of \<^verbatim>\<open>diamond blastx ... --outfmt 6 bitscore\<close> under \<^verbatim>\<open>timeout=2\<close>:
  it exceeds the timeout (\<open>Hangs\<close>, \<^verbatim>\<open>subprocess.TimeoutExpired\<close>), it exits with a
  non-zero status (\<open>Fails\<close>, \<^verbatim>\<open>subprocess.CalledProcessError\<close>; a failing
  \<^verbatim>\<open>diamond makedb\<close> just before it is the same fatal error), or it prints one
  bitscore per line (\<open>Prints\<close>, the lines already read by \<^verbatim>\<open>float\<close>; no line at
  all is the empty list). Bitscores are modelled as reals: the program only compares
  them, adds a constant and divides two counts.
\<close>

datatype response = Hangs | Fails | Prints "real list"

record world =
  rng :: "nat list"
  diamond :: "response list"

text \<open>
  \<^verbatim>\<open>CODONS\<close> of \<^verbatim>\<open>dark.aaVars\<close> is a dictionary from an amino acid letter to the
  list of its codons. It is a table of another package, so it is a parameter of the
  model: an association list, whose keys in order are \<^verbatim>\<open>list(CODONS)\<close>.
\<close>

type_synonym codons = "(char \<times> string list) list"

section \<open>Random draws\<close>

text \<open>\<^verbatim>\<open>random.choice(seq)\<close>: \<^verbatim>\<open>seq[randbelow(len(seq))]\<close>, \<^verbatim>\<open>IndexError\<close> on an empty sequence.\<close>

definition choice :: "'a list \<Rightarrow> nat list \<Rightarrow> (error + 'a \<times> nat list) option" where
  "choice seq rs =
     (if seq = [] then Some (Inl IndexError)
      else case rs of
             [] \<Rightarrow> None
           | r # rs' \<Rightarrow> Some (Inr (seq ! (r mod length seq), rs')))"

text \<open>\<^verbatim>\<open>"".join(choice(aas) for _ in range(n))\<close>: \<open>n\<close> draws, in order.\<close>

fun choices :: "'a list \<Rightarrow> nat \<Rightarrow> nat list \<Rightarrow> (error + 'a list \<times> nat list) option" where
  "choices seq 0 rs = Some (Inr ([], rs))"
| "choices seq (Suc n) rs =
     (case choice seq rs of
        None \<Rightarrow> None
      | Some (Inl e) \<Rightarrow> Some (Inl e)
      | Some (Inr (a, rs')) \<Rightarrow>
          (case choices seq n rs' of
             None \<Rightarrow> None
           | Some (Inl e) \<Rightarrow> Some (Inl e)
           | Some (Inr (as, rs'')) \<Rightarrow> Some (Inr (a # as, rs''))))"

text \<open>
  \<^verbatim>\<open>random.shuffle(x)\<close>, as CPython writes it:
  \<^verbatim>\<open>for i in reversed(range(1, len(x))): j = randbelow(i + 1); x[i], x[j] = x[j], x[i]\<close>.
  \<open>shuffle_down i\<close> is the loop from index \<open>i\<close> down to 1.
\<close>

fun shuffle_down :: "nat \<Rightarrow> 'a list \<Rightarrow> nat list \<Rightarrow> ('a list \<times> nat list) option" where
  "shuffle_down 0 x rs = Some (x, rs)"
| "shuffle_down (Suc k) x [] = None"
| "shuffle_down (Suc k) x (r # rs) =
     (let i = Suc k; j = r mod (i + 1)
      in shuffle_down k (x[i := x ! j, j := x ! i]) rs)"

definition shuffle :: "'a list \<Rightarrow> nat list \<Rightarrow> ('a list \<times> nat list) option" where
  "shuffle x rs = shuffle_down (length x - 1) x rs"

text \<open>\<^verbatim>\<open>xs[:k]\<close>: the first \<open>k\<close> elements, all but the last \<open>-k\<close> when \<open>k\<close> is negative.\<close>

definition slice_to :: "'a list \<Rightarrow> int \<Rightarrow> 'a list" where
  "slice_to xs k = (if k < 0 then take (nat (int (length xs) + k)) xs else take (nat k) xs)"

section \<open>The sequence generator (sampleBitScore, lines 97 to 115)\<close>

text \<open>
  \<^verbatim>\<open>existingAA = newAA = subject.sequence[index]\<close>
  \<^verbatim>\<open>while newAA == existingAA: newAA = choice(aas)\<close>
  The loop ends at the first draw that differs; each round reads the tape, so the
  recursion is on the tape.
\<close>

function while_newAA :: "'a list \<Rightarrow> 'a \<Rightarrow> 'a \<Rightarrow> nat list \<Rightarrow> (error + 'a \<times> nat list) option" where
  "while_newAA aas existingAA newAA rs =
     (if newAA = existingAA then
        (case choice aas rs of
           None \<Rightarrow> None
         | Some (Inl e) \<Rightarrow> Some (Inl e)
         | Some (Inr (newAA', rs')) \<Rightarrow> while_newAA aas existingAA newAA' rs')
      else Some (Inr (newAA, rs)))"
  by pat_completeness auto
termination
  by (relation "measure (\<lambda>(aas, existingAA, newAA, rs). length rs)")
     (auto simp: choice_def split: if_splits list.splits)

declare while_newAA.simps [simp del]

text \<open>
  \<^verbatim>\<open>for index in indices: ...; queryAa[index] = newAA\<close>.
  The indices come from \<^verbatim>\<open>range(length)\<close> and the subject has \<open>length\<close> residues;
  an index outside the subject would raise \<^verbatim>\<open>IndexError\<close>.
\<close>

fun for_index :: "char list \<Rightarrow> string \<Rightarrow> nat list \<Rightarrow> char list \<Rightarrow> nat list
    \<Rightarrow> (error + char list \<times> nat list) option" where
  "for_index aas subject [] queryAa rs = Some (Inr (queryAa, rs))"
| "for_index aas subject (index # indices) queryAa rs =
     (if length subject \<le> index then Some (Inl IndexError)
      else case while_newAA aas (subject ! index) (subject ! index) rs of
             None \<Rightarrow> None
           | Some (Inl e) \<Rightarrow> Some (Inl e)
           | Some (Inr (newAA, rs')) \<Rightarrow>
               for_index aas subject indices (queryAa[index := newAA]) rs')"

text \<open>
  \<^verbatim>\<open>"".join(choice(CODONS[aa]) for aa in queryAa)\<close>: one codon per residue;
  \<^verbatim>\<open>CODONS[aa]\<close> raises \<^verbatim>\<open>KeyError\<close> for a letter that is not a key.
\<close>

fun queryDNA_of :: "codons \<Rightarrow> char list \<Rightarrow> nat list \<Rightarrow> (error + string \<times> nat list) option" where
  "queryDNA_of CODONS [] rs = Some (Inr ([], rs))"
| "queryDNA_of CODONS (aa # queryAa) rs =
     (case map_of CODONS aa of
        None \<Rightarrow> Some (Inl KeyError)
      | Some cs \<Rightarrow>
          (case choice cs rs of
             None \<Rightarrow> None
           | Some (Inl e) \<Rightarrow> Some (Inl e)
           | Some (Inr (codon, rs')) \<Rightarrow>
               (case queryDNA_of CODONS queryAa rs' of
                  None \<Rightarrow> None
                | Some (Inl e) \<Rightarrow> Some (Inl e)
                | Some (Inr (dna, rs'')) \<Rightarrow> Some (Inr (codon @ dna, rs'')))))"

text \<open>\<^verbatim>\<open>sum(a != b for (a, b) in zip(queryAa, subject.sequence))\<close>\<close>

definition mismatches :: "'a list \<Rightarrow> 'a list \<Rightarrow> nat" where
  "mismatches queryAa subject = length (filter (\<lambda>(a, b). a \<noteq> b) (zip queryAa subject))"

text \<open>
  Lines 97 to 112: the subject, the shuffled indices cut to \<open>errorCount\<close>, the query
  residues and the query DNA. The result is \<open>(subject, queryAa, queryDNA)\<close> and the
  rest of the tape. \<^verbatim>\<open>AARead\<close> keeps the sequence it is given.
\<close>

definition generate :: "codons \<Rightarrow> int \<Rightarrow> int \<Rightarrow> nat list
    \<Rightarrow> (error + (string \<times> char list \<times> string) \<times> nat list) option" where
  "generate CODONS errorCount length' rs =
     (let aas = map fst CODONS in
      case choices aas (nat length') rs of
        None \<Rightarrow> None
      | Some (Inl e) \<Rightarrow> Some (Inl e)
      | Some (Inr (subject, rs1)) \<Rightarrow>
          (case shuffle [0..<nat length'] rs1 of
             None \<Rightarrow> None
           | Some (shuffled, rs2) \<Rightarrow>
               (let indices = slice_to shuffled errorCount in
                case for_index aas subject indices subject rs2 of
                  None \<Rightarrow> None
                | Some (Inl e) \<Rightarrow> Some (Inl e)
                | Some (Inr (queryAa, rs3)) \<Rightarrow>
                    (case queryDNA_of CODONS queryAa rs3 of
                       None \<Rightarrow> None
                     | Some (Inl e) \<Rightarrow> Some (Inl e)
                     | Some (Inr (queryDNA, rs4)) \<Rightarrow>
                         Some (Inr ((subject, queryAa, queryDNA), rs4))))))"

section \<open>sampleBitScore\<close>

text \<open>
  What a call of \<^verbatim>\<open>sampleBitScore\<close> does: it raises an error that nothing catches,
  it raises \<^verbatim>\<open>subprocess.TimeoutExpired\<close> (which \<^verbatim>\<open>plot\<close> catches), or it returns
  a bitscore. The last two carry the world as the call leaves it.
\<close>

datatype outcome = Raise error | TimeoutExpired world | Return real world

text \<open>
  The sequences, the sanity check of line 115, one run of \<^verbatim>\<open>diamond blastx\<close>, then
  lines 146 to 153: \<^verbatim>\<open>bitscores.pop(0)\<close> and
  \<^verbatim>\<open>assert all(bitscore >= b for b in bitscores)\<close>, or \<open>0.0\<close> for no output.
  The files, \<^verbatim>\<open>blastxArgs\<close>, \<^verbatim>\<open>tmpdir\<close> and \<^verbatim>\<open>verbose\<close> do not change the result
  the model gives, since the answer of \<^verbatim>\<open>diamond\<close> is read from the tape.
\<close>

definition sampleBitScore :: "codons \<Rightarrow> int \<Rightarrow> int \<Rightarrow> world \<Rightarrow> outcome option" where
  "sampleBitScore CODONS errorCount length' w =
     (case generate CODONS errorCount length' (rng w) of
        None \<Rightarrow> None
      | Some (Inl e) \<Rightarrow> Some (Raise e)
      | Some (Inr ((subject, queryAa, queryDNA), rs)) \<Rightarrow>
          if errorCount \<noteq> int (mismatches queryAa subject) then Some (Raise AssertionError)
          else
            (case diamond w of
               [] \<Rightarrow> None
             | answer # answers \<Rightarrow>
                 (let w' = \<lparr>rng = rs, diamond = answers\<rparr> in
                  case answer of
                    Hangs \<Rightarrow> Some (TimeoutExpired w')
                  | Fails \<Rightarrow> Some (Raise CalledProcessError)
                  | Prints match \<Rightarrow>
                      (case match of
                         [] \<Rightarrow> Some (Return 0 w')
                       | bitscore # bitscores \<Rightarrow>
                           if list_all (\<lambda>b. bitscore \<ge> b) bitscores
                           then Some (Return bitscore w')
                           else Some (Raise AssertionError)))))"

lemma sampleBitScore_reads_diamond:
  "sampleBitScore CODONS errorCount length' w = Some (TimeoutExpired w') \<or>
   sampleBitScore CODONS errorCount length' w = Some (Return score w')
   \<Longrightarrow> \<exists>answer. diamond w = answer # diamond w'"
  unfolding sampleBitScore_def
  by (auto simp: Let_def split: option.splits sum.splits prod.splits if_splits
      list.splits response.splits)

section \<open>plot: the sweep (lines 196 to 237)\<close>

definition zeroBitscoreScale :: int where
  "zeroBitscoreScale = 2"

definition matchColor :: string where
  "matchColor = ''steelblue''"

definition missColor :: string where
  "missColor = ''tomato''"

text \<open>
  The lists and counters of \<^verbatim>\<open>plot\<close>. A \<^verbatim>\<open>Counter\<close> reads 0 at a key it does not
  hold, so it is a total function. \<^verbatim>\<open>bitscores\<close> holds the plotted values: a score,
  or the negative integer of a miss.
\<close>

record locals =
  errorCounts :: "int list"
  bitscores :: "real list"
  color :: "string list"
  successCounts :: "int \<Rightarrow> int"
  missCounts :: "int \<Rightarrow> int"

definition initial :: locals where
  "initial = \<lparr>errorCounts = [], bitscores = [], color = [],
              successCounts = (\<lambda>_. 0), missCounts = (\<lambda>_. 0)\<rparr>"

text \<open>Lines 228 to 235, the body of \<^verbatim>\<open>else:\<close> after \<^verbatim>\<open>iteration += 1\<close>.\<close>

definition record_score :: "int \<Rightarrow> real \<Rightarrow> locals \<Rightarrow> locals" where
  "record_score errorCount score st =
     (if score = 0 then
        (let counts = (missCounts st)(errorCount := missCounts st errorCount + 1)
         in st\<lparr>missCounts := counts,
               bitscores := bitscores st @ [of_int (- counts errorCount * zeroBitscoreScale)],
               color := color st @ [missColor]\<rparr>)
      else
        st\<lparr>bitscores := bitscores st @ [score],
           color := color st @ [matchColor],
           successCounts := (successCounts st)(errorCount := successCounts st errorCount + 1)\<rparr>)"

text \<open>
  \<^verbatim>\<open>while iteration < iterations:\<close> with its \<^verbatim>\<open>try\<close>. A timeout goes round again
  with the same \<open>iteration\<close> and the same lists and counters; only the world has moved.
  Every round reads one answer of \<^verbatim>\<open>diamond\<close>, which is what the recursion descends on.
\<close>

function while_iteration ::
    "codons \<Rightarrow> int \<Rightarrow> int \<Rightarrow> int \<Rightarrow> int \<Rightarrow> locals \<Rightarrow> world \<Rightarrow> (error + locals \<times> world) option" where
  "while_iteration CODONS errorCount length' iterations iteration st w =
     (if iteration < iterations then
        (case sampleBitScore CODONS errorCount length' w of
           None \<Rightarrow> None
         | Some (Raise e) \<Rightarrow> Some (Inl e)
         | Some (TimeoutExpired w') \<Rightarrow>
             while_iteration CODONS errorCount length' iterations iteration st w'
         | Some (Return score w') \<Rightarrow>
             while_iteration CODONS errorCount length' iterations (iteration + 1)
               (record_score errorCount score st) w')
      else Some (Inr (st, w)))"
  by pat_completeness auto
termination
proof (relation "measure (\<lambda>(CODONS, errorCount, length', iterations, iteration, st, w).
                   length (diamond w))")
qed (use sampleBitScore_reads_diamond in force)+

declare while_iteration.simps [simp del]

text \<open>
  \<^verbatim>\<open>range(0, stop, step)\<close>: \<^verbatim>\<open>ValueError\<close> for a zero step, else the multiples of
  \<open>step\<close> from 0 that stay before \<open>stop\<close>.
\<close>

definition range_from_0 :: "int \<Rightarrow> int \<Rightarrow> error + int list" where
  "range_from_0 stop step =
     (if step = 0 then Inl ValueError
      else
        (let n = (if 0 < step then (if 0 < stop then (stop - 1) div step + 1 else 0)
                  else (if stop < 0 then (- stop - 1) div (- step) + 1 else 0))
         in Inr (map (\<lambda>k. int k * step) [0..<nat n])))"

text \<open>
  \<^verbatim>\<open>for errorCount in range(0, length, errorIncrement):\<close> the inner loop from
  \<^verbatim>\<open>iteration = 0\<close>, then \<^verbatim>\<open>errorCounts.extend([errorCount] * iterations)\<close>.
\<close>

fun for_errorCount ::
    "codons \<Rightarrow> int \<Rightarrow> int \<Rightarrow> int list \<Rightarrow> locals \<Rightarrow> world \<Rightarrow> (error + locals \<times> world) option" where
  "for_errorCount CODONS length' iterations [] st w = Some (Inr (st, w))"
| "for_errorCount CODONS length' iterations (errorCount # rest) st w =
     (case while_iteration CODONS errorCount length' iterations 0 st w of
        None \<Rightarrow> None
      | Some (Inl e) \<Rightarrow> Some (Inl e)
      | Some (Inr (st', w')) \<Rightarrow>
          for_errorCount CODONS length' iterations rest
            (st'\<lparr>errorCounts := errorCounts st' @ replicate (nat iterations) errorCount\<rparr>) w')"

definition sweep ::
    "codons \<Rightarrow> int \<Rightarrow> int \<Rightarrow> int \<Rightarrow> world \<Rightarrow> (error + locals \<times> world) option" where
  "sweep CODONS length' errorIncrement iterations w =
     (case range_from_0 length' errorIncrement of
        Inl e \<Rightarrow> Some (Inl e)
      | Inr levels \<Rightarrow> for_errorCount CODONS length' iterations levels initial w)"

section \<open>plot: the match rate and the axes (lines 243 to 261)\<close>

text \<open>
  What \<^verbatim>\<open>plot\<close> hands to the \<^verbatim>\<open>Axes\<close>: the three lists of \<^verbatim>\<open>ax.scatter\<close>, the
  bounds of \<^verbatim>\<open>set_xlim\<close> and \<^verbatim>\<open>set_ylim\<close>, and the two lists of \<^verbatim>\<open>ax2.plot\<close>.
  Titles, labels and the elapsed time are left out.
\<close>

record cell =
  scatter_x :: "int list"
  scatter_y :: "real list"
  scatter_color :: "string list"
  xlim :: "real \<times> real"
  ylim :: "real \<times> real"
  successX :: "int list"
  successY :: "real list"

text \<open>
  \<^verbatim>\<open>successCounts[errorCount] / iterations\<close> raises \<^verbatim>\<open>ZeroDivisionError\<close> in the
  first round when \<open>iterations\<close> is 0; \<^verbatim>\<open>max(bitscores)\<close> raises \<^verbatim>\<open>ValueError\<close>
  on an empty list. The result also carries the lists and counters as \<^verbatim>\<open>plot\<close>
  leaves them.
\<close>

definition plot ::
    "codons \<Rightarrow> int \<Rightarrow> int \<Rightarrow> int \<Rightarrow> world \<Rightarrow> (error + (locals \<times> cell) \<times> world) option" where
  "plot CODONS length' errorIncrement iterations w =
     (case sweep CODONS length' errorIncrement iterations w of
        None \<Rightarrow> None
      | Some (Inl e) \<Rightarrow> Some (Inl e)
      | Some (Inr (st, w')) \<Rightarrow>
          (case range_from_0 length' errorIncrement of
             Inl e \<Rightarrow> Some (Inl e)
           | Inr levels \<Rightarrow>
               if levels \<noteq> [] \<and> iterations = 0 then Some (Inl ZeroDivisionError)
               else if bitscores st = [] then Some (Inl ValueError)
               else Some (Inr ((st,
                 \<lparr>scatter_x = errorCounts st,
                  scatter_y = bitscores st,
                  scatter_color = color st,
                  xlim = (0, of_int (length' + 1)),
                  ylim = (of_int (- (iterations + 1) * zeroBitscoreScale),
                          Max (set (bitscores st)) + 5),
                  successX = levels,
                  successY = map (\<lambda>errorCount.
                     of_int (successCounts st errorCount) / of_int iterations) levels\<rparr>), w'))))"

section \<open>main: the grid (lines 278 to 318)\<close>

definition sensitivities :: "string option list" where
  "sensitivities =
     [None, Some ''faster'', Some ''fast'', Some ''very-sensitive'', Some ''mid-sensitive'',
      Some ''more-sensitive'', Some ''sensitive'', Some ''ultra-sensitive'']"

text \<open>
  Modelled from the spec: \<^verbatim>\<open>dimensionalIterator\<close> of \<^verbatim>\<open>dark.dimension\<close>, whose code
  is not part of the program's source. The spec describes it as a position cursor that
  advances left to right, top to bottom across a grid of fixed size and stops once the
  grid is exhausted: the cells of a \<open>rows\<close> by \<open>cols\<close> grid, row by row.
\<close>

definition dimensionalIterator :: "nat \<times> nat \<Rightarrow> (nat \<times> nat) list" where
  "dimensionalIterator dims =
     (case dims of (rows, cols) \<Rightarrow>
        concat (map (\<lambda>row. map (\<lambda>col. (row, col)) [0..<cols]) [0..<rows]))"

text \<open>
  \<^verbatim>\<open>for sensitivity in sensitivities: row, col = next(dimensions); plot(axes[row][col], ...)\<close>.
  The result lists each configuration with its cell, and keeps what is left of the
  iterator. \<^verbatim>\<open>next\<close> on an exhausted iterator raises \<^verbatim>\<open>StopIteration\<close>.
\<close>

fun for_sensitivity ::
    "'c list \<Rightarrow> (nat \<times> nat) list \<Rightarrow> error + ('c \<times> nat \<times> nat) list \<times> (nat \<times> nat) list" where
  "for_sensitivity [] dimensions = Inr ([], dimensions)"
| "for_sensitivity (sensitivity # rest) [] = Inl StopIteration"
| "for_sensitivity (sensitivity # rest) ((row, col) # dimensions) =
     (case for_sensitivity rest dimensions of
        Inl e \<Rightarrow> Inl e
      | Inr (placed, unused) \<Rightarrow> Inr ((sensitivity, row, col) # placed, unused))"

text \<open>
  \<^verbatim>\<open>rows = len(sensitivities) // cols + bool(len(sensitivities) % cols)\<close>, the placing
  loop, then \<^verbatim>\<open>for row, col in dimensions: axes[row][col].axis("off")\<close>: the cells
  still in the iterator are the ones turned off. \<^verbatim>\<open>main\<close> fixes \<open>cols = 3\<close>; the
  division raises \<^verbatim>\<open>ZeroDivisionError\<close> for no column at all.
\<close>

definition grid_rows :: "nat \<Rightarrow> nat \<Rightarrow> nat" where
  "grid_rows n cols = n div cols + (if n mod cols \<noteq> 0 then 1 else 0)"

definition grid ::
    "nat \<Rightarrow> 'c list \<Rightarrow> error + ('c \<times> nat \<times> nat) list \<times> (nat \<times> nat) list" where
  "grid cols configurations =
     (if cols = 0 then Inl ZeroDivisionError
      else for_sensitivity configurations
             (dimensionalIterator (grid_rows (length configurations) cols, cols)))"

definition main_grid ::
    "error + (string option \<times> nat \<times> nat) list \<times> (nat \<times> nat) list" where
  "main_grid = grid 3 sensitivities"

section \<open>A small table for the examples\<close>

text \<open>Two residues, the first with two codons: enough for every branch of the generator.\<close>

definition AC :: codons where
  "AC = [(CHR ''A'', [''GCA'', ''GCC'']), (CHR ''C'', [''TGC''])]"

section \<open>Reading a run\<close>

text \<open>
  Notions used to state and prove the properties of \<^verbatim>\<open>plot\<close>; none of them is code
  of the program.
  \<^item> \<open>returned a\<close>: the score a call of \<^verbatim>\<open>sampleBitScore\<close> returns when
    \<^verbatim>\<open>diamond\<close> answers \<open>a\<close> and both assertions pass.
  \<^item> \<open>records errorCount scores st\<close>: the lists and counters after the scores have
    been recorded one after the other at the level \<open>errorCount\<close>.
  \<^item> \<open>outcomes m scores\<close>: the plotted value and the colour recorded for each score,
    when \<open>m\<close> misses were counted at that level before.
  \<^item> \<open>entries st\<close>: the recorded points, as \<^verbatim>\<open>ax.scatter\<close> pairs them up.
  \<^item> \<open>miss_values errorCount st\<close>: the plotted values of the misses at one level, in
    the order of the trials.
\<close>

fun returned :: "response \<Rightarrow> real option" where
  "returned Hangs = None"
| "returned Fails = None"
| "returned (Prints []) = Some 0"
| "returned (Prints (bitscore # others)) = Some bitscore"

definition records :: "int \<Rightarrow> real list \<Rightarrow> locals \<Rightarrow> locals" where
  "records errorCount scores st = foldl (\<lambda>s score. record_score errorCount score s) st scores"

fun outcomes :: "int \<Rightarrow> real list \<Rightarrow> (real \<times> string) list" where
  "outcomes m [] = []"
| "outcomes m (score # scores) =
     (if score = 0
      then (of_int (- (m + 1) * zeroBitscoreScale), missColor) # outcomes (m + 1) scores
      else (score, matchColor) # outcomes m scores)"

definition entries :: "locals \<Rightarrow> (int \<times> real \<times> string) list" where
  "entries st = zip (errorCounts st) (zip (bitscores st) (color st))"

definition miss_values :: "int \<Rightarrow> locals \<Rightarrow> real list" where
  "miss_values errorCount st =
     map (\<lambda>p. fst (snd p))
       (filter (\<lambda>p. fst p = errorCount \<and> snd (snd p) = missColor) (entries st))"

text \<open>
  \<open>block n errorCount scores st\<close>: one round of the outer loop, the scores recorded and
  then \<^verbatim>\<open>errorCounts.extend([errorCount] * iterations)\<close> with \<open>n\<close> copies.
  \<open>tidy st\<close>: the three lists are equally long, each counter counts the recorded
  points of its colour at its level, a miss is plotted below zero and a match is not
  plotted at zero, and the misses of a level are stacked at \<open>-2, -4, ...\<close>.
\<close>

definition block :: "nat \<Rightarrow> int \<Rightarrow> real list \<Rightarrow> locals \<Rightarrow> locals" where
  "block n errorCount scores st =
     (let st' = records errorCount scores st
      in st'\<lparr>errorCounts := errorCounts st' @ replicate n errorCount\<rparr>)"

definition stacked :: "nat \<Rightarrow> real" where
  "stacked k = of_int (- int k * zeroBitscoreScale)"

definition tidy :: "locals \<Rightarrow> bool" where
  "tidy st \<longleftrightarrow>
     length (errorCounts st) = length (bitscores st) \<and>
     length (bitscores st) = length (color st) \<and>
     (\<forall>e. successCounts st e
        = int (length (filter (\<lambda>p. fst p = e \<and> snd (snd p) = matchColor) (entries st)))) \<and>
     (\<forall>e. missCounts st e
        = int (length (filter (\<lambda>p. fst p = e \<and> snd (snd p) = missColor) (entries st)))) \<and>
     (\<forall>e. miss_values e st = map stacked [1..<Suc (nat (missCounts st e))]) \<and>
     list_all (\<lambda>p. (snd (snd p) = missColor \<and> fst (snd p) < 0) \<or>
                   (snd (snd p) = matchColor \<and> fst (snd p) \<noteq> 0)) (entries st)"

text \<open>
  \<open>nonnegative answers\<close>: no answer of \<^verbatim>\<open>diamond\<close> starts with a negative bitscore
  (a bitscore that \<^verbatim>\<open>diamond\<close> reports is positive).
\<close>

definition nonnegative :: "response list \<Rightarrow> bool" where
  "nonnegative answers =
     list_all (\<lambda>a. case returned a of None \<Rightarrow> True | Some s \<Rightarrow> 0 \<le> s) answers"

section \<open>Worlds for the examples\<close>

text \<open>
  A tape of random numbers that alternates, so that every redraw ends, and answers of
  \<^verbatim>\<open>diamond\<close> with matches, misses and timeouts.
\<close>

definition tape :: "nat list" where
  "tape = concat (replicate 150 [0, 1])"

definition small_world :: world where
  "small_world =
     \<lparr>rng = tape,
      diamond = [Prints [50, 20], Hangs, Prints [], Hangs, Hangs, Prints [], Prints []]\<rparr>"

definition scenario_world :: world where
  "scenario_world =
     \<lparr>rng = tape,
      diamond = [Prints [50, 20], Hangs, Prints [], Prints [3], Hangs, Prints [], Prints [],
                 Prints [7]]\<rparr>"

definition timeout_world :: world where
  "timeout_world =
     \<lparr>rng = tape, diamond = [Hangs, Prints [50], Hangs, Hangs, Prints []]\<rparr>"

text \<open>
  \<open>trial_scores w w'\<close>: the scores that the calls of \<^verbatim>\<open>sampleBitScore\<close> returned
  between the world \<open>w\<close> and the later world \<open>w'\<close>, in the order of the calls: each
  call reads one answer of \<^verbatim>\<open>diamond\<close>, and a timeout returns no score.
  \<open>level_scores n i scores\<close>: of these, the scores of the \<open>n\<close> trials of the \<open>i\<close>-th
  level swept (counted from 0).
\<close>

definition trial_scores :: "world \<Rightarrow> world \<Rightarrow> real list" where
  "trial_scores w w' =
     List.map_filter returned (take (length (diamond w) - length (diamond w')) (diamond w))"

definition level_scores :: "nat \<Rightarrow> nat \<Rightarrow> real list \<Rightarrow> real list" where
  "level_scores n i scores = take n (drop (i * n) scores)"



section \<open>Properties of the sequence generator\<close>

lemma choices_length:
  "choices seq n rs = Some (Inr (as, rs')) \<Longrightarrow> length as = n"
  by (induction n arbitrary: rs as rs')
     (auto split: option.splits sum.splits prod.splits)

lemma shuffle_down_mset:
  "k \<le> length x - 1 \<Longrightarrow> shuffle_down k x rs = Some (y, rs') \<Longrightarrow> mset y = mset x"
proof (induction k x rs rule: shuffle_down.induct)
  case (3 k x r rs)
  have i: "Suc k < length x" using "3.prems"(1) by simp
  have j: "r mod (Suc k + 1) < length x" 
  proof -
    have "r mod (Suc k + 1) < Suc k + 1" by simp
    then show ?thesis using i by linarith
  qed
  let ?x' = "x[Suc k := x ! (r mod (Suc k + 1)), r mod (Suc k + 1) := x ! Suc k]"
  have "mset y = mset ?x'"
    using "3.IH"[of "Suc k" "r mod (Suc k + 1)"] "3.prems" by (simp add: Let_def)
  also have "\<dots> = mset x" using i j by (simp add: mset_swap)
  finally show ?case .
qed simp_all

lemma shuffle_mset: "shuffle x rs = Some (y, rs') \<Longrightarrow> mset y = mset x"
  unfolding shuffle_def by (rule shuffle_down_mset) simp_all

lemma while_newAA_differs:
  "while_newAA aas existingAA newAA rs = Some (Inr (a, rs')) \<Longrightarrow> a \<noteq> existingAA"
proof (induction aas existingAA newAA rs rule: while_newAA.induct)
  case (1 aas existingAA newAA rs)
  note unf = while_newAA.simps[of aas existingAA newAA rs]
  show ?case
  proof (cases "newAA = existingAA")
    case True
    with "1.prems" unf obtain n' rs1 where
      c: "choice aas rs = Some (Inr (n', rs1))"
      and r: "while_newAA aas existingAA n' rs1 = Some (Inr (a, rs'))"
      by (auto split: option.splits sum.splits)
    from "1.IH"[OF True c refl refl r] show ?thesis .
  next
    case False
    with "1.prems" unf show ?thesis by simp
  qed
qed

lemma mismatches_card:
  "length q = length s \<Longrightarrow> mismatches q s = card {i. i < length s \<and> q ! i \<noteq> s ! i}"
proof -
  assume l: "length q = length s"
  have "{i. i < length (zip q s) \<and> (case zip q s ! i of (a, b) \<Rightarrow> a \<noteq> b)}
        = {i. i < length s \<and> q ! i \<noteq> s ! i}"
    using l by auto
  then show ?thesis unfolding mismatches_def length_filter_conv_card by simp
qed

lemma mismatches_update:
  assumes "length q = length s" "i < length s" "q ! i = s ! i" "a \<noteq> s ! i"
  shows "mismatches (q[i := a]) s = Suc (mismatches q s)"
proof -
  let ?D = "{k. k < length s \<and> q ! k \<noteq> s ! k}"
  have "{k. k < length s \<and> q[i := a] ! k \<noteq> s ! k} = insert i ?D"
    using assms by (auto simp: nth_list_update)
  moreover have "i \<notin> ?D" using assms by simp
  moreover have "finite ?D" by simp
  ultimately show ?thesis using assms(1) by (simp add: mismatches_card)
qed

lemma for_index_mismatches:
  "distinct indices \<Longrightarrow> length queryAa = length subject \<Longrightarrow>
   \<forall>i \<in> set indices. queryAa ! i = subject ! i \<Longrightarrow>
   for_index aas subject indices queryAa rs = Some (Inr (q, rs')) \<Longrightarrow>
   length q = length subject \<and>
   mismatches q subject = mismatches queryAa subject + length indices"
proof (induction indices arbitrary: queryAa rs)
  case Nil
  then show ?case by simp
next
  case (Cons index indices)
  from Cons.prems(4) have inr: "index < length subject"
    by (auto split: if_splits)
  with Cons.prems(4) obtain newAA rs1 where
    w: "while_newAA aas (subject ! index) (subject ! index) rs = Some (Inr (newAA, rs1))"
    and f: "for_index aas subject indices (queryAa[index := newAA]) rs1 = Some (Inr (q, rs'))"
    by (auto split: option.splits sum.splits)
  have ne: "newAA \<noteq> subject ! index" using w by (rule while_newAA_differs)
  have "\<forall>i \<in> set indices. queryAa[index := newAA] ! i = subject ! i"
  proof
    fix i assume i: "i \<in> set indices"
    then have "index \<noteq> i" using Cons.prems(1) by auto
    then show "queryAa[index := newAA] ! i = subject ! i"
      using Cons.prems(3) i by simp
  qed
  with Cons.IH[OF _ _ _ f] Cons.prems(1,2)
  have "length q = length subject \<and>
        mismatches q subject = mismatches (queryAa[index := newAA]) subject + length indices"
    by simp
  moreover have "mismatches (queryAa[index := newAA]) subject = Suc (mismatches queryAa subject)"
    using Cons.prems(2,3) inr ne by (intro mismatches_update) simp_all
  ultimately show ?case by simp
qed

lemma mismatches_same: "mismatches s s = 0"
  by (auto simp: mismatches_def filter_empty_conv in_set_zip)

lemma generate_parts:
  assumes "generate CODONS errorCount length' rs = Some (Inr ((subject, queryAa, queryDNA), rs'))"
  obtains rs1 shuffled rs2 rs3 where
    "choices (map fst CODONS) (nat length') rs = Some (Inr (subject, rs1))"
    "shuffle [0..<nat length'] rs1 = Some (shuffled, rs2)"
    "for_index (map fst CODONS) subject (slice_to shuffled errorCount) subject rs2
       = Some (Inr (queryAa, rs3))"
  using assms unfolding generate_def Let_def
  by (auto split: option.splits sum.splits prod.splits)

text \<open>
  However the draws fall, a returned pair has the requested length on both sides and
  differs in as many places as the slice \<^verbatim>\<open>indices[:errorCount]\<close> has indices.
\<close>

lemma generate_mismatches:
  assumes g: "generate CODONS errorCount length' rs = Some (Inr ((subject, queryAa, queryDNA), rs'))"
  shows "length subject = nat length' \<and> length queryAa = nat length' \<and>
         mismatches queryAa subject = length (slice_to [0..<nat length'] errorCount)"
proof -
  from g obtain rs1 shuffled rs2 rs3 where
    c: "choices (map fst CODONS) (nat length') rs = Some (Inr (subject, rs1))" and
    s: "shuffle [0..<nat length'] rs1 = Some (shuffled, rs2)" and
    f: "for_index (map fst CODONS) subject (slice_to shuffled errorCount) subject rs2
       = Some (Inr (queryAa, rs3))"
    by (rule generate_parts)
  have ls: "length subject = nat length'" using c by (rule choices_length)
  have m: "mset shuffled = mset [0..<nat length']" using s by (rule shuffle_mset)
  then have d: "distinct shuffled" by (metis distinct_upt mset_eq_imp_distinct_iff)
  have len: "length shuffled = nat length'"
    using m by (metis length_upt mset_eq_length minus_nat.diff_0)
  let ?ix = "slice_to shuffled errorCount"
  have dix: "distinct ?ix" using d by (simp add: slice_to_def)
  have "length queryAa = length subject \<and>
        mismatches queryAa subject = mismatches subject subject + length ?ix"
    using dix f by (intro for_index_mismatches) simp_all
  moreover have "length ?ix = length (slice_to [0..<nat length'] errorCount)"
    using len by (simp add: slice_to_def)
  ultimately show ?thesis using ls by (simp add: mismatches_same)
qed

text \<open>
  C1. For \<open>0 \<le> errorCount \<le> length\<close> (so also for every \<open>length \<ge> 1\<close>), whatever
  the random draws are, the subject and the query residues that the generator returns
  both have \<open>length\<close> residues and differ in exactly \<open>errorCount\<close> positions: the
  sum that the assertion of line 115 compares with \<open>errorCount\<close> equals it.
\<close>

theorem generate_hamming:
  assumes "0 \<le> errorCount" and "errorCount \<le> length'"
    and "generate CODONS errorCount length' rs
           = Some (Inr ((subject, queryAa, queryDNA), rs'))"
  shows "length subject = nat length' \<and> length queryAa = nat length' \<and>
         int (mismatches queryAa subject) = errorCount"
  using generate_mismatches[OF assms(3)] assms(1,2) by (simp add: slice_to_def)

theorem generate_hamming_witness:
  "(0::int) \<le> 2 \<and> (2::int) \<le> 3 \<and>
   generate AC 2 3 [0, 1, 0, 1, 0, 0, 1, 1, 0, 0, 0]
     = Some (Inr ((''ACA'', ''CCC'', ''TGCTGCTGC''), [])) \<and>
   length ''ACA'' = nat 3 \<and> length ''CCC'' = nat 3 \<and> int (mismatches ''CCC'' ''ACA'') = 2"
proof -
  have g: "generate AC 2 3 [0, 1, 0, 1, 0, 0, 1, 1, 0, 0, 0]
     = Some (Inr ((''ACA'', ''CCC'', ''TGCTGCTGC''), []))"
    by code_simp
  from generate_hamming[OF _ _ g] g show ?thesis by simp
qed

text \<open>
  C9. Whatever the random draws are: with \<open>errorCount = 0\<close> the query residues are
  the subject, and with \<open>errorCount = length\<close> the two have the same length and
  differ at every position.
\<close>

theorem generate_extremes:
  assumes g: "generate CODONS errorCount length' rs
           = Some (Inr ((subject, queryAa, queryDNA), rs'))"
  shows "(errorCount = 0 \<longrightarrow> queryAa = subject) \<and>
         (errorCount = length' \<longrightarrow>
            length queryAa = length subject \<and>
            (\<forall>i < length subject. queryAa ! i \<noteq> subject ! i))"
proof (intro conjI impI)
  assume z: "errorCount = 0"
  from g obtain rs1 shuffled rs2 rs3 where
    f: "for_index (map fst CODONS) subject (slice_to shuffled errorCount) subject rs2
       = Some (Inr (queryAa, rs3))"
    by (rule generate_parts)
  then show "queryAa = subject" using z by (simp add: slice_to_def)
next
  assume e: "errorCount = length'"
  note m = generate_mismatches[OF g]
  then show l: "length queryAa = length subject" by simp
  have "mismatches queryAa subject = length subject"
    using m e by (simp add: slice_to_def)
  then have "card {i. i < length subject \<and> queryAa ! i \<noteq> subject ! i}
             = card {..<length subject}"
    using l by (simp add: mismatches_card)
  moreover have "{i. i < length subject \<and> queryAa ! i \<noteq> subject ! i} \<subseteq> {..<length subject}"
    by auto
  ultimately have "{i. i < length subject \<and> queryAa ! i \<noteq> subject ! i} = {..<length subject}"
    by (intro card_subset_eq) simp_all
  then show "\<forall>i < length subject. queryAa ! i \<noteq> subject ! i" by blast
qed

theorem generate_extremes_witness:
  "generate AC 0 3 [0, 1, 0, 1, 0, 0, 0, 0]
     = Some (Inr ((''ACA'', ''ACA'', ''GCATGCGCA''), [])) \<and>
   generate AC 3 3 [0, 1, 0, 1, 0, 1, 1, 0, 1, 0, 0, 0]
     = Some (Inr ((''ACA'', ''CAC'', ''TGCGCATGC''), [0])) \<and>
   ''CAC'' ! 0 \<noteq> ''ACA'' ! 0 \<and> ''CAC'' ! 1 \<noteq> ''ACA'' ! 1 \<and> ''CAC'' ! 2 \<noteq> ''ACA'' ! 2"
proof -
  have g0: "generate AC 0 3 [0, 1, 0, 1, 0, 0, 0, 0]
     = Some (Inr ((''ACA'', ''ACA'', ''GCATGCGCA''), []))"
    by code_simp
  have g3: "generate AC 3 3 [0, 1, 0, 1, 0, 1, 1, 0, 1, 0, 0, 0]
     = Some (Inr ((''ACA'', ''CAC'', ''TGCGCATGC''), [0]))"
    by code_simp
  have a: "\<forall>i < length ''ACA''. ''CAC'' ! i \<noteq> ''ACA'' ! i"
    by (rule conjunct2[OF mp[OF conjunct2[OF generate_extremes[OF g3]] refl]])
  have "''CAC'' ! 0 \<noteq> ''ACA'' ! 0" using a[rule_format, of 0] by simp
  moreover have "''CAC'' ! 1 \<noteq> ''ACA'' ! 1" using a[rule_format, of 1] by simp
  moreover have "''CAC'' ! 2 \<noteq> ''ACA'' ! 2" using a[rule_format, of 2] by simp
  ultimately have "''CAC'' ! 0 \<noteq> ''ACA'' ! 0 \<and> ''CAC'' ! 1 \<noteq> ''ACA'' ! 1 \<and> ''CAC'' ! 2 \<noteq> ''ACA'' ! 2"
    by blast
  with g0 g3 show ?thesis by simp
qed

section \<open>The grid\<close>

lemma dimensionalIterator_cells:
  "0 < cols \<Longrightarrow>
   dimensionalIterator (rows, cols) = map (\<lambda>i. (i div cols, i mod cols)) [0..<rows * cols]"
proof (induction rows)
  case 0
  then show ?case by (simp add: dimensionalIterator_def)
next
  case (Suc rows)
  have a: "[0..<rows * cols + cols] = [0..<rows * cols] @ [rows * cols..<rows * cols + cols]"
    by (rule upt_add_eq_append) simp
  have b: "[rows * cols..<rows * cols + cols] = map (\<lambda>i. i + rows * cols) [0..<cols]"
    by (metis map_add_upt add.commute)
  have c: "Suc rows * cols = rows * cols + cols" by simp
  have "[0..<Suc rows * cols] = [0..<rows * cols] @ map (\<lambda>i. i + rows * cols) [0..<cols]"
    unfolding c a b ..
  moreover have "map (\<lambda>i. (i div cols, i mod cols)) (map (\<lambda>i. i + rows * cols) [0..<cols])
      = map (\<lambda>col. (rows, col)) [0..<cols]"
    using Suc.prems by simp
  ultimately show ?case using Suc by (simp add: dimensionalIterator_def)
qed

lemma for_sensitivity_zip:
  "length cs \<le> length dims \<Longrightarrow> for_sensitivity cs dims = Inr (zip cs dims, drop (length cs) dims)"
  by (induction cs dims rule: for_sensitivity.induct) simp_all

lemma grid_rows_enough: "0 < cols \<Longrightarrow> n \<le> grid_rows n cols * cols"
proof -
  assume c: "0 < cols"
  have "n = n div cols * cols + n mod cols" by simp
  moreover have "n mod cols \<le> (if n mod cols \<noteq> 0 then 1 else 0) * cols"
    using c by (simp add: less_imp_le)
  ultimately show ?thesis unfolding grid_rows_def
    by (metis add_le_cancel_left distrib_right)
qed

lemma grid_rows_ceiling:
  assumes c: "0 < cols"
  shows "int (grid_rows n cols) = \<lceil>real n / real cols\<rceil>"
proof -
  have n: "real n = real (n div cols) * real cols + real (n mod cols)"
    by (metis of_nat_add of_nat_mult div_mult_mod_eq)
  have rc: "0 < real cols" using c by simp
  show ?thesis
  proof (cases "n mod cols = 0")
    case True
    then have "real n / real cols = real (n div cols)" using n rc by simp
    then show ?thesis using True by (simp add: grid_rows_def)
  next
    case False
    have lt: "real (n mod cols) < real cols" using c by simp
    have pos: "0 < real (n mod cols)" using False by simp
    have "real (n div cols) * real cols < real n" using n pos by linarith
    then have lo: "real (n div cols) < real n / real cols"
      using rc by (simp add: pos_less_divide_eq)
    have "real n \<le> (real (n div cols) + 1) * real cols"
      using n lt by (simp add: algebra_simps)
    then have hi: "real n / real cols \<le> real (n div cols) + 1"
      using rc by (simp add: pos_divide_le_eq)
    have "\<lceil>real n / real cols\<rceil> = int (n div cols) + 1"
      using lo hi by (intro ceiling_unique) simp_all
    then show ?thesis using False by (simp add: grid_rows_def)
  qed
qed

lemma zip_map_upt:
  "n \<le> m \<Longrightarrow> length cs = n \<Longrightarrow> zip cs (map f [0..<m]) = map (\<lambda>i. (cs ! i, f i)) [0..<n]"
  by (auto intro!: nth_equalityI)


text \<open>
  C7. With \<open>cols > 0\<close> columns, the grid has \<open>\<lceil>count / cols\<rceil>\<close> rows, the
  \<open>i\<close>-th configuration (from 0, in the order given) is placed at row
  \<open>i div cols\<close> and column \<open>i mod cols\<close>, and the cells turned off afterwards
  are the \<open>rows * cols - count\<close> cells that follow the last one placed.
\<close>

theorem grid_placement:
  assumes "0 < cols"
  shows "grid cols configurations =
           Inr (map (\<lambda>i. (configurations ! i, i div cols, i mod cols))
                  [0..<length configurations],
                map (\<lambda>i. (i div cols, i mod cols))
                  [length configurations..<grid_rows (length configurations) cols * cols]) \<and>
         int (grid_rows (length configurations) cols)
           = \<lceil>real (length configurations) / real cols\<rceil> \<and>
         length (map (\<lambda>i. (i div cols, i mod cols))
                  [length configurations..<grid_rows (length configurations) cols * cols])
           = grid_rows (length configurations) cols * cols - length configurations"
proof -
  let ?n = "length configurations"
  let ?R = "grid_rows ?n cols * cols"
  let ?f = "\<lambda>i. (i div cols, i mod cols)"
  have le: "?n \<le> ?R" using assms by (rule grid_rows_enough)
  have d: "dimensionalIterator (grid_rows ?n cols, cols) = map ?f [0..<?R]"
    using assms by (rule dimensionalIterator_cells)
  have "grid cols configurations = for_sensitivity configurations (map ?f [0..<?R])"
    using assms d by (simp add: grid_def)
  also have "\<dots> = Inr (zip configurations (map ?f [0..<?R]), drop ?n (map ?f [0..<?R]))"
    using le by (intro for_sensitivity_zip) simp
  also have "zip configurations (map ?f [0..<?R]) = map (\<lambda>i. (configurations ! i, ?f i)) [0..<?n]"
    using le by (intro zip_map_upt) simp_all
  also have "drop ?n (map ?f [0..<?R]) = map ?f [?n..<?R]"
    by (simp add: drop_map)
  finally show ?thesis using assms by (simp add: grid_rows_ceiling)
qed



theorem grid_placement_witness:
  "(0::nat) < 3 \<and>
   main_grid =
     Inr ([(None, 0, 0), (Some ''faster'', 0, 1), (Some ''fast'', 0, 2),
           (Some ''very-sensitive'', 1, 0), (Some ''mid-sensitive'', 1, 1),
           (Some ''more-sensitive'', 1, 2), (Some ''sensitive'', 2, 0),
           (Some ''ultra-sensitive'', 2, 1)],
          [(2, 2)]) \<and>
   grid_rows (length sensitivities) 3 = 3"
proof -
  have l: "length sensitivities = 8" by (simp add: sensitivities_def)
  have r: "grid_rows 8 3 = 3" by (simp add: grid_rows_def)
  have u: "[0..<8] = [0, 1, 2, 3, 4, 5, 6, 7]" by (simp add: upt_rec)
  have v: "[8..<9] = [8::nat]" by (simp add: upt_rec)
  have g: "main_grid = Inr (map (\<lambda>i. (sensitivities ! i, i div 3, i mod 3)) [0..<8],
                            map (\<lambda>i. (i div 3, i mod 3)) [8..<9])"
    using grid_placement[of 3 sensitivities] unfolding main_grid_def l r by simp
  have "main_grid =
     Inr ([(None, 0, 0), (Some ''faster'', 0, 1), (Some ''fast'', 0, 2),
           (Some ''very-sensitive'', 1, 0), (Some ''mid-sensitive'', 1, 1),
           (Some ''more-sensitive'', 1, 2), (Some ''sensitive'', 2, 0),
           (Some ''ultra-sensitive'', 2, 1)],
          [(2, 2)])"
    unfolding g u v by (simp add: sensitivities_def)
  moreover have "grid_rows (length sensitivities) 3 = 3" unfolding l by (rule r)
  ultimately show ?thesis by simp
qed

section \<open>The score that sampleBitScore returns\<close>

text \<open>
  C3. Once the sequences are made (for \<open>0 \<le> errorCount \<le> length\<close>, so that the
  sanity check passes) and \<^verbatim>\<open>diamond\<close> has printed its lines: no line gives
  \<open>0.0\<close>; otherwise the first bitscore is returned when it is at least every other
  one, and \<^verbatim>\<open>AssertionError\<close> is raised when it is not.
\<close>

theorem sampleBitScore_first_bitscore:
  assumes "0 \<le> errorCount" and "errorCount \<le> length'"
    and g: "generate CODONS errorCount length' (rng w)
              = Some (Inr ((subject, queryAa, queryDNA), rs))"
    and d: "diamond w = Prints match # answers"
  shows "sampleBitScore CODONS errorCount length' w =
           (case match of
              [] \<Rightarrow> Some (Return 0 \<lparr>rng = rs, diamond = answers\<rparr>)
            | bitscore # others \<Rightarrow>
                if (\<forall>b \<in> set others. b \<le> bitscore)
                then Some (Return bitscore \<lparr>rng = rs, diamond = answers\<rparr>)
                else Some (Raise AssertionError))"
proof -
  have "int (mismatches queryAa subject) = errorCount"
    using generate_mismatches[OF g] assms(1,2) by (simp add: slice_to_def)
  then show ?thesis
    unfolding sampleBitScore_def using g d
    by (simp add: list_all_iff split: list.splits)
qed

theorem sampleBitScore_first_bitscore_witness:
  "(0::int) \<le> 2 \<and> (2::int) \<le> 3 \<and>
   generate AC 2 3 [0, 1, 0, 1, 0, 0, 1, 1, 0, 0, 0]
     = Some (Inr ((''ACA'', ''CCC'', ''TGCTGCTGC''), [])) \<and>
   sampleBitScore AC 2 3 \<lparr>rng = [0, 1, 0, 1, 0, 0, 1, 1, 0, 0, 0], diamond = [Prints []]\<rparr>
     = Some (Return 0 \<lparr>rng = [], diamond = []\<rparr>) \<and>
   sampleBitScore AC 2 3 \<lparr>rng = [0, 1, 0, 1, 0, 0, 1, 1, 0, 0, 0], diamond = [Prints [50, 20, 50]]\<rparr>
     = Some (Return 50 \<lparr>rng = [], diamond = []\<rparr>) \<and>
   sampleBitScore AC 2 3 \<lparr>rng = [0, 1, 0, 1, 0, 0, 1, 1, 0, 0, 0], diamond = [Prints [20, 50]]\<rparr>
     = Some (Raise AssertionError)"
proof -
  have g: "generate AC 2 3 [0, 1, 0, 1, 0, 0, 1, 1, 0, 0, 0]
     = Some (Inr ((''ACA'', ''CCC'', ''TGCTGCTGC''), []))"
    by code_simp
  have "sampleBitScore AC 2 3
          \<lparr>rng = [0, 1, 0, 1, 0, 0, 1, 1, 0, 0, 0], diamond = [Prints []]\<rparr>
        = Some (Return 0 \<lparr>rng = [], diamond = []\<rparr>)"
    using sampleBitScore_first_bitscore[where w =
        "\<lparr>rng = [0, 1, 0, 1, 0, 0, 1, 1, 0, 0, 0], diamond = [Prints []]\<rparr>"
        and errorCount = 2 and length' = 3 and CODONS = AC and match = "[]"] g
    by simp
  moreover have "sampleBitScore AC 2 3
          \<lparr>rng = [0, 1, 0, 1, 0, 0, 1, 1, 0, 0, 0], diamond = [Prints [50, 20, 50]]\<rparr>
        = Some (Return 50 \<lparr>rng = [], diamond = []\<rparr>)"
    using sampleBitScore_first_bitscore[where w =
        "\<lparr>rng = [0, 1, 0, 1, 0, 0, 1, 1, 0, 0, 0], diamond = [Prints [50, 20, 50]]\<rparr>"
        and errorCount = 2 and length' = 3 and CODONS = AC and match = "[50, 20, 50]"] g
    by simp
  moreover have "sampleBitScore AC 2 3
          \<lparr>rng = [0, 1, 0, 1, 0, 0, 1, 1, 0, 0, 0], diamond = [Prints [20, 50]]\<rparr>
        = Some (Raise AssertionError)"
    using sampleBitScore_first_bitscore[where w =
        "\<lparr>rng = [0, 1, 0, 1, 0, 0, 1, 1, 0, 0, 0], diamond = [Prints [20, 50]]\<rparr>"
        and errorCount = 2 and length' = 3 and CODONS = AC and match = "[20, 50]"] g
    by simp
  ultimately show ?thesis using g by simp
qed

section \<open>The inner loop\<close>

lemma records_Nil: "records errorCount [] st = st"
  by (simp add: records_def)

lemma records_Cons:
  "records errorCount (score # scores) st
     = records errorCount scores (record_score errorCount score st)"
  by (simp add: records_def)

lemma records_effect:
  "errorCounts (records e scores st) = errorCounts st \<and>
   bitscores (records e scores st) = bitscores st @ map fst (outcomes (missCounts st e) scores) \<and>
   color (records e scores st) = color st @ map snd (outcomes (missCounts st e) scores) \<and>
   missCounts (records e scores st) e'
     = missCounts st e' + (if e' = e then int (length (filter (\<lambda>s. s = 0) scores)) else 0) \<and>
   successCounts (records e scores st) e'
     = successCounts st e' + (if e' = e then int (length (filter (\<lambda>s. s \<noteq> 0) scores)) else 0)"
proof (induction scores arbitrary: st)
  case Nil
  show ?case by (simp add: records_Nil)
next
  case (Cons score scores)
  show ?case
    unfolding records_Cons
    by (cases "score = 0") (simp_all add: Cons.IH record_score_def Let_def algebra_simps)
qed

lemma sampleBitScore_timeout_tape:
  "sampleBitScore CODONS errorCount length' w = Some (TimeoutExpired w')
   \<Longrightarrow> diamond w = Hangs # diamond w'"
  unfolding sampleBitScore_def
  by (auto simp: Let_def split: option.splits sum.splits prod.splits if_splits
      list.splits response.splits)

lemma sampleBitScore_return_tape:
  "sampleBitScore CODONS errorCount length' w = Some (Return score w')
   \<Longrightarrow> \<exists>a. diamond w = a # diamond w' \<and> returned a = Some score"
  unfolding sampleBitScore_def
  by (auto simp: Let_def split: option.splits sum.splits prod.splits if_splits
      list.splits response.splits)

text \<open>
  What a finished inner loop has done: it has read a stretch of the answers of
  \<^verbatim>\<open>diamond\<close>, and recorded the scores of those that were not timeouts, which are
  as many as the rounds that were left.
\<close>

lemma while_iteration_records:
  "while_iteration CODONS errorCount length' iterations iteration st w = Some (Inr (st', w'))
   \<Longrightarrow> \<exists>consumed. diamond w = consumed @ diamond w' \<and>
         st' = records errorCount (List.map_filter returned consumed) st \<and>
         int (length (List.map_filter returned consumed)) = max 0 (iterations - iteration) \<and>
         length (filter (\<lambda>a. a \<noteq> Hangs) consumed) = length (List.map_filter returned consumed)"
proof (induction CODONS errorCount length' iterations iteration st w
       rule: while_iteration.induct)
  case (1 CODONS errorCount length' iterations iteration st w)
  note unf = while_iteration.simps[of CODONS errorCount length' iterations iteration st w]
  show ?case
  proof (cases "iteration < iterations")
    case False
    with "1.prems" unf have "st' = st" "w' = w" by simp_all
    with False show ?thesis
      by (intro exI[of _ "[]"]) (simp add: records_Nil List.map_filter_simps)
  next
    case True
    show ?thesis
    proof (cases "sampleBitScore CODONS errorCount length' w")
      case None
      with True "1.prems" unf show ?thesis by simp
    next
      case (Some out)
      show ?thesis
      proof (cases out)
        case (Raise e)
        with Some True "1.prems" unf show ?thesis by simp
      next
        case (TimeoutExpired w1)
        with Some have s: "sampleBitScore CODONS errorCount length' w = Some (TimeoutExpired w1)"
          by simp
        with True "1.prems" unf
        have r: "while_iteration CODONS errorCount length' iterations iteration st w1
                   = Some (Inr (st', w'))"
          by simp
        from "1.IH"(1)[OF True Some TimeoutExpired r] obtain consumed where
          c: "diamond w1 = consumed @ diamond w'"
             "st' = records errorCount (List.map_filter returned consumed) st"
             "int (length (List.map_filter returned consumed)) = max 0 (iterations - iteration)"
             "length (filter (\<lambda>a. a \<noteq> Hangs) consumed)
                = length (List.map_filter returned consumed)"
          by blast
        have t: "diamond w = Hangs # diamond w1" using s by (rule sampleBitScore_timeout_tape)
        show ?thesis
          using c t by (intro exI[of _ "Hangs # consumed"]) (simp add: List.map_filter_simps)
      next
        case (Return score w1)
        with Some have s: "sampleBitScore CODONS errorCount length' w = Some (Return score w1)"
          by simp
        with True "1.prems" unf
        have r: "while_iteration CODONS errorCount length' iterations (iteration + 1)
                   (record_score errorCount score st) w1 = Some (Inr (st', w'))"
          by simp
        from "1.IH"(2)[OF True Some Return r] obtain consumed where
          c: "diamond w1 = consumed @ diamond w'"
             "st' = records errorCount (List.map_filter returned consumed)
                      (record_score errorCount score st)"
             "int (length (List.map_filter returned consumed))
                = max 0 (iterations - (iteration + 1))"
             "length (filter (\<lambda>a. a \<noteq> Hangs) consumed)
                = length (List.map_filter returned consumed)"
          by blast
        from sampleBitScore_return_tape[OF s] obtain a where
          a: "diamond w = a # diamond w1" "returned a = Some score"
          by blast
        have nh: "a \<noteq> Hangs" using a(2) by auto
        show ?thesis
          using c a nh True
          by (intro exI[of _ "a # consumed"]) (simp add: List.map_filter_simps records_Cons)
      qed
    qed
  qed
qed

section \<open>One level of the sweep\<close>

lemma colours_differ: "matchColor \<noteq> missColor"
  by (simp add: matchColor_def missColor_def)

lemma length_outcomes: "length (outcomes m scores) = length scores"
  by (induction scores arbitrary: m) simp_all

lemma outcomes_matches:
  "length (filter (\<lambda>y. snd y = matchColor) (outcomes m scores))
     = length (filter (\<lambda>s. s \<noteq> 0) scores)"
  using colours_differ by (induction scores arbitrary: m) auto

lemma outcomes_misses:
  "length (filter (\<lambda>y. snd y = missColor) (outcomes m scores))
     = length (filter (\<lambda>s. s = 0) scores)"
  using colours_differ by (induction scores arbitrary: m) auto

lemma outcomes_stacked:
  "map fst (filter (\<lambda>y. snd y = missColor) (outcomes (int m) scores))
     = map (\<lambda>k. stacked (m + k)) [1..<Suc (length (filter (\<lambda>s. s = 0) scores))]"
proof (induction scores arbitrary: m)
  case Nil
  show ?case by simp
next
  case (Cons score scores)
  let ?z = "length (filter (\<lambda>s. s = 0) scores)"
  show ?case
  proof (cases "score = 0")
    case True
    have u: "[1..<Suc (Suc ?z)] = 1 # map Suc [1..<Suc ?z]"
      by (simp add: upt_conv_Cons map_Suc_upt del: upt_Suc)
    have i: "int m + 1 = int (Suc m)" by simp
    have "map fst (filter (\<lambda>y. snd y = missColor) (outcomes (int m) (score # scores)))
          = stacked (Suc m) # map (\<lambda>k. stacked (Suc m + k)) [1..<Suc ?z]"
      using True Cons.IH[of "Suc m"] unfolding outcomes.simps i
      by (simp add: stacked_def)
    also have "\<dots> = map (\<lambda>k. stacked (m + k)) (1 # map Suc [1..<Suc ?z])"
      by (simp add: comp_def)
    finally show ?thesis using True u by simp
  next
    case False
    then show ?thesis using Cons.IH[of m] colours_differ by simp
  qed
qed

lemma outcomes_signs:
  "0 \<le> m \<Longrightarrow>
   list_all (\<lambda>y. (snd y = missColor \<and> fst y < 0) \<or> (snd y = matchColor \<and> fst y \<noteq> 0))
     (outcomes m scores)"
  by (induction scores arbitrary: m) (auto simp: zeroBitscoreScale_def)

lemma outcomes_nonneg:
  "list_all (\<lambda>s. 0 \<le> s) scores \<Longrightarrow>
   list_all (\<lambda>y. snd y = matchColor \<longrightarrow> 0 \<le> fst y) (outcomes m scores)"
  using colours_differ by (induction scores arbitrary: m) auto

lemma zip_replicate_left: "length ys = n \<Longrightarrow> zip (replicate n e) ys = map (Pair e) ys"
  by (induction ys arbitrary: n) auto

lemma entries_block:
  assumes "length (errorCounts st) = length (bitscores st)"
    and "length (bitscores st) = length (color st)"
    and "length scores = n"
  shows "entries (block n e scores st)
           = entries st @ map (Pair e) (outcomes (missCounts st e) scores)"
proof -
  let ?o = "outcomes (missCounts st e) scores"
  have "entries (block n e scores st)
        = zip (errorCounts st @ replicate n e)
              (zip (bitscores st @ map fst ?o) (color st @ map snd ?o))"
    by (simp add: entries_def block_def Let_def records_effect)
  also have "\<dots> = zip (errorCounts st @ replicate n e)
                       (zip (bitscores st) (color st) @ zip (map fst ?o) (map snd ?o))"
    using assms(2) by simp
  also have "\<dots> = zip (errorCounts st) (zip (bitscores st) (color st))
                     @ zip (replicate n e) (zip (map fst ?o) (map snd ?o))"
    using assms(1,2) by simp
  also have "zip (map fst ?o) (map snd ?o) = ?o" by (rule zip_map_fst_snd)
  also have "zip (replicate n e) ?o = map (Pair e) ?o"
    using assms(3) by (intro zip_replicate_left) (simp add: length_outcomes)
  finally show ?thesis by (simp add: entries_def)
qed

lemma stacked_append:
  "map f [1..<Suc M] @ map (\<lambda>k. f (M + k)) [1..<Suc z] = map f [1..<Suc (M + z)]"
  by (induction z) simp_all

lemma tidy_initial: "tidy initial"
  by (simp add: tidy_def initial_def entries_def miss_values_def)

lemma block_lists:
  "errorCounts (block n e scores st) = errorCounts st @ replicate n e \<and>
   bitscores (block n e scores st) = bitscores st @ map fst (outcomes (missCounts st e) scores) \<and>
   color (block n e scores st) = color st @ map snd (outcomes (missCounts st e) scores) \<and>
   missCounts (block n e scores st) e'
     = missCounts st e' + (if e' = e then int (length (filter (\<lambda>s. s = 0) scores)) else 0) \<and>
   successCounts (block n e scores st) e'
     = successCounts st e' + (if e' = e then int (length (filter (\<lambda>s. s \<noteq> 0) scores)) else 0)"
  by (simp add: block_def Let_def records_effect)

lemma tidy_block:
  assumes t: "tidy st" and n: "length scores = n"
  shows "tidy (block n e scores st)"
proof -
  let ?st = "block n e scores st"
  let ?M = "length (filter (\<lambda>p. fst p = e \<and> snd (snd p) = missColor) (entries st))"
  let ?z = "length (filter (\<lambda>s. s = 0) scores)"
  have l1: "length (errorCounts st) = length (bitscores st)"
    and l2: "length (bitscores st) = length (color st)"
    using t by (simp_all add: tidy_def)
  have m: "missCounts st e = int ?M" using t by (simp add: tidy_def)
  let ?o = "outcomes (int ?M) scores"
  have en: "entries ?st = entries st @ map (Pair e) ?o"
    using entries_block[OF l1 l2 n, of e] m by simp
  have a1: "length (errorCounts ?st) = length (bitscores ?st)"
    using l1 n m by (simp add: block_lists length_outcomes)
  have a2: "length (bitscores ?st) = length (color ?st)"
    using l2 by (simp add: block_lists)
  have a3: "successCounts ?st e'
        = int (length (filter (\<lambda>p. fst p = e' \<and> snd (snd p) = matchColor) (entries ?st)))" for e'
  proof -
    have "successCounts st e'
        = int (length (filter (\<lambda>p. fst p = e' \<and> snd (snd p) = matchColor) (entries st)))"
      using t by (simp add: tidy_def)
    then show ?thesis
      unfolding en by (cases "e' = e") (simp_all add: block_lists comp_def outcomes_matches)
  qed
  have a4: "missCounts ?st e'
        = int (length (filter (\<lambda>p. fst p = e' \<and> snd (snd p) = missColor) (entries ?st)))" for e'
  proof -
    have "missCounts st e'
        = int (length (filter (\<lambda>p. fst p = e' \<and> snd (snd p) = missColor) (entries st)))"
      using t by (simp add: tidy_def)
    then show ?thesis
      unfolding en by (cases "e' = e") (simp_all add: block_lists comp_def outcomes_misses)
  qed
  have a5: "miss_values e' ?st = map stacked [1..<Suc (nat (missCounts ?st e'))]" for e'
  proof -
    have old: "miss_values e' st = map stacked [1..<Suc (nat (missCounts st e'))]"
      using t by (simp add: tidy_def)
    show ?thesis
    proof (cases "e' = e")
      case False
      then have "miss_values e' ?st = miss_values e' st"
        unfolding miss_values_def en by (simp add: filter_map comp_def)
      then show ?thesis using False old by (simp add: block_lists)
    next
      case True
      have "miss_values e' ?st
            = miss_values e' st @ map fst (filter (\<lambda>y. snd y = missColor) ?o)"
        unfolding miss_values_def en using True by (simp add: filter_map comp_def)
      also have "map fst (filter (\<lambda>y. snd y = missColor) ?o)
                 = map (\<lambda>k. stacked (?M + k)) [1..<Suc ?z]"
        by (rule outcomes_stacked)
      also have "miss_values e' st = map stacked [1..<Suc ?M]"
        using old True m by simp
      also have "map stacked [1..<Suc ?M] @ map (\<lambda>k. stacked (?M + k)) [1..<Suc ?z]
                 = map stacked [1..<Suc (?M + ?z)]"
        by (rule stacked_append)
      finally have "miss_values e' ?st = map stacked [1..<Suc (?M + ?z)]" .
      moreover have "nat (missCounts ?st e') = ?M + ?z"
        using True m by (simp add: block_lists)
      ultimately show ?thesis by simp
    qed
  qed
  have a6: "list_all (\<lambda>p. (snd (snd p) = missColor \<and> fst (snd p) < 0) \<or>
                          (snd (snd p) = matchColor \<and> fst (snd p) \<noteq> 0)) (entries ?st)"
  proof -
    have "list_all (\<lambda>p. (snd (snd p) = missColor \<and> fst (snd p) < 0) \<or>
                          (snd (snd p) = matchColor \<and> fst (snd p) \<noteq> 0)) (entries st)"
      using t by (simp add: tidy_def)
    moreover have "list_all (\<lambda>y. (snd y = missColor \<and> fst y < 0) \<or>
                                   (snd y = matchColor \<and> fst y \<noteq> 0)) ?o"
      by (rule outcomes_signs) simp
    ultimately show ?thesis
      unfolding en by (auto simp: list_all_iff)
  qed
  show ?thesis
    unfolding tidy_def using a1 a2 a3 a4 a5 a6 by blast
qed

section \<open>The sweep\<close>

lemma nonnegative_append:
  "nonnegative (consumed @ rest) \<Longrightarrow>
   list_all (\<lambda>s. 0 \<le> s) (List.map_filter returned consumed) \<and> nonnegative rest"
  by (induction consumed) (auto simp: nonnegative_def List.map_filter_simps split: option.splits)

lemma block_nonneg:
  assumes l1: "length (errorCounts st) = length (bitscores st)"
    and l2: "length (bitscores st) = length (color st)"
    and n: "length scores = n"
    and s: "list_all (\<lambda>s. 0 \<le> s) scores"
    and old: "list_all (\<lambda>p. snd (snd p) = matchColor \<longrightarrow> 0 \<le> fst (snd p)) (entries st)"
  shows "list_all (\<lambda>p. snd (snd p) = matchColor \<longrightarrow> 0 \<le> fst (snd p))
           (entries (block n e scores st))"
proof -
  have "list_all (\<lambda>y. snd y = matchColor \<longrightarrow> 0 \<le> fst y) (outcomes (missCounts st e) scores)"
    using s by (rule outcomes_nonneg)
  with old show ?thesis
    unfolding entries_block[OF l1 l2 n] by (auto simp: list_all_iff)
qed

text \<open>
  The outer loop keeps the lists tidy, appends \<open>nat iterations\<close> copies of each level
  to \<^verbatim>\<open>errorCounts\<close>, and reads the answers of \<^verbatim>\<open>diamond\<close> in order.
\<close>

lemma for_errorCount_tidy:
  "for_errorCount CODONS length' iterations levels st w = Some (Inr (st', w')) \<Longrightarrow>
   tidy st \<Longrightarrow>
   tidy st' \<and>
   errorCounts st' = errorCounts st @ concat (map (replicate (nat iterations)) levels) \<and>
   (\<exists>consumed. diamond w = consumed @ diamond w') \<and>
   (nonnegative (diamond w) \<and>
    list_all (\<lambda>p. snd (snd p) = matchColor \<longrightarrow> 0 \<le> fst (snd p)) (entries st)
    \<longrightarrow> list_all (\<lambda>p. snd (snd p) = matchColor \<longrightarrow> 0 \<le> fst (snd p)) (entries st'))"
proof (induction levels arbitrary: st w)
  case Nil
  then show ?case by simp
next
  case (Cons errorCount rest)
  let ?n = "nat iterations"
  from Cons.prems(1) obtain st1 w1 where
    wh: "while_iteration CODONS errorCount length' iterations 0 st w = Some (Inr (st1, w1))"
    and fr: "for_errorCount CODONS length' iterations rest
               (st1\<lparr>errorCounts := errorCounts st1 @ replicate ?n errorCount\<rparr>) w1
             = Some (Inr (st', w'))"
    by (auto split: option.splits sum.splits)
  from while_iteration_records[OF wh] obtain consumed where
    c: "diamond w = consumed @ diamond w1"
    and r: "st1 = records errorCount (List.map_filter returned consumed) st"
    and l: "int (length (List.map_filter returned consumed)) = max 0 (iterations - 0)"
    by blast
  let ?scores = "List.map_filter returned consumed"
  let ?st2 = "block ?n errorCount ?scores st"
  have len: "length ?scores = ?n" using l by linarith
  have st2: "st1\<lparr>errorCounts := errorCounts st1 @ replicate ?n errorCount\<rparr> = ?st2"
    using r by (simp add: block_def Let_def)
  have t2: "tidy ?st2" using Cons.prems(2) len by (rule tidy_block)
  note ih = Cons.IH[OF fr[unfolded st2] t2]
  have e: "errorCounts st'
           = errorCounts st @ concat (map (replicate ?n) (errorCount # rest))"
    using ih by (simp add: block_lists)
  have d: "\<exists>consumed. diamond w = consumed @ diamond w'"
    using ih c by (metis append.assoc)
  have nn: "list_all (\<lambda>p. snd (snd p) = matchColor \<longrightarrow> 0 \<le> fst (snd p)) (entries st')"
    if a: "nonnegative (diamond w)"
      and b: "list_all (\<lambda>p. snd (snd p) = matchColor \<longrightarrow> 0 \<le> fst (snd p)) (entries st)"
  proof -
    from a c have s: "list_all (\<lambda>s. 0 \<le> s) ?scores" and n1: "nonnegative (diamond w1)"
      using nonnegative_append[of consumed "diamond w1"] by simp_all
    have l1: "length (errorCounts st) = length (bitscores st)"
      and l2: "length (bitscores st) = length (color st)"
      using Cons.prems(2) by (simp_all add: tidy_def)
    have "list_all (\<lambda>p. snd (snd p) = matchColor \<longrightarrow> 0 \<le> fst (snd p)) (entries ?st2)"
      using l1 l2 len s b by (rule block_nonneg)
    with ih n1 show ?thesis by blast
  qed
  from ih e d nn show ?case by blast
qed

lemma range_from_0_distinct: "range_from_0 stop step = Inr levels \<Longrightarrow> distinct levels"
  by (auto simp: range_from_0_def Let_def distinct_map inj_on_def split: if_splits)

lemma range_from_0_positive:
  assumes "1 \<le> stop" and "1 \<le> step"
  shows "range_from_0 stop step
           = Inr (map (\<lambda>k. int k * step) [0..<nat ((stop - 1) div step + 1)])"
  using assms by (simp add: range_from_0_def)

lemma multiples_below:
  assumes "1 \<le> stop" and "1 \<le> step"
  shows "set (map (\<lambda>k. int k * step) [0..<nat ((stop - 1) div step + 1)])
           = {e. 0 \<le> e \<and> e < stop \<and> step dvd e}"
proof (intro set_eqI iffI)
  fix e
  assume "e \<in> set (map (\<lambda>k. int k * step) [0..<nat ((stop - 1) div step + 1)])"
  then have "\<exists>k. e = int k * step \<and> k < nat ((stop - 1) div step + 1)"
    by auto
  then obtain k where k: "e = int k * step" "k < nat ((stop - 1) div step + 1)"
    by blast
  then have "int k \<le> (stop - 1) div step" by linarith
  then have "int k * step \<le> (stop - 1) div step * step"
    using assms(2) by (simp add: mult_right_mono)
  moreover have "(stop - 1) div step * step + (stop - 1) mod step = stop - 1" by simp
  moreover have "0 \<le> (stop - 1) mod step" using assms(2) by simp
  ultimately have "e < stop" using k(1) by linarith
  moreover have "0 \<le> e" using k(1) assms(2) by simp
  ultimately show "e \<in> {e. 0 \<le> e \<and> e < stop \<and> step dvd e}" using k(1) by simp
next
  fix e
  assume "e \<in> {e. 0 \<le> e \<and> e < stop \<and> step dvd e}"
  then have e: "0 \<le> e" "e < stop" "step dvd e" by simp_all
  then obtain q where q: "e = q * step" by (metis dvd_def mult.commute)
  have q0: "0 \<le> q" using e(1) q assms(2) by (simp add: zero_le_mult_iff)
  have "q * step \<le> stop - 1" using e(2) q by simp
  then have "(q * step) div step \<le> (stop - 1) div step"
    using assms(2) by (intro zdiv_mono1) simp_all
  then have "q \<le> (stop - 1) div step" using assms(2) by simp
  then have "nat q < nat ((stop - 1) div step + 1)" using q0 by simp
  moreover have "e = int (nat q) * step" using q q0 by simp
  ultimately show "e \<in> set (map (\<lambda>k. int k * step) [0..<nat ((stop - 1) div step + 1)])"
    by (auto simp: image_iff intro!: bexI[of _ "nat q"])
qed

lemma count_in_levels:
  "distinct levels \<Longrightarrow> e \<in> set levels \<Longrightarrow>
   length (filter (\<lambda>x. x = e) (concat (map (replicate n) levels))) = n"
proof (induction levels)
  case Nil
  then show ?case by simp
next
  case (Cons a levels)
  have none: "e \<notin> set levels \<Longrightarrow>
      filter (\<lambda>x. x = e) (concat (map (replicate n) levels)) = []"
    by (auto simp: filter_empty_conv)
  show ?case
  proof (cases "a = e")
    case True
    with Cons.prems have "e \<notin> set levels" by auto
    with True none show ?thesis by simp
  next
    case False
    with Cons show ?thesis by auto
  qed
qed

lemma split_by_colour:
  "list_all (\<lambda>x. P x \<longrightarrow> (Q x \<noteq> R x)) xs \<Longrightarrow>
   length (filter (\<lambda>x. P x \<and> Q x) xs) + length (filter (\<lambda>x. P x \<and> R x) xs)
     = length (filter P xs)"
  by (induction xs) auto

text \<open>Each counter pair of a level adds up to the number of points recorded at it.\<close>

lemma tidy_accounts:
  assumes t: "tidy st"
  shows "successCounts st e + missCounts st e
           = int (length (filter (\<lambda>x. x = e) (errorCounts st)))"
proof -
  have l: "length (errorCounts st) = length (zip (bitscores st) (color st))"
    using t by (simp add: tidy_def)
  have s: "list_all (\<lambda>p. (snd (snd p) = missColor \<and> fst (snd p) < 0) \<or>
                         (snd (snd p) = matchColor \<and> fst (snd p) \<noteq> 0)) (entries st)"
    using t by (simp add: tidy_def)
  have "list_all (\<lambda>p. fst p = e \<longrightarrow> ((snd (snd p) = matchColor) \<noteq> (snd (snd p) = missColor)))
          (entries st)"
    using s colours_differ by (auto simp: list_all_iff)
  then have "length (filter (\<lambda>p. fst p = e \<and> snd (snd p) = matchColor) (entries st))
           + length (filter (\<lambda>p. fst p = e \<and> snd (snd p) = missColor) (entries st))
           = length (filter (\<lambda>p. fst p = e) (entries st))"
    by (rule split_by_colour)
  moreover have "length (filter (\<lambda>p. fst p = e) (entries st))
                 = length (filter (\<lambda>x. x = e) (map fst (entries st)))"
    by (simp add: comp_def)
  moreover have "map fst (entries st) = errorCounts st"
    unfolding entries_def using l by (rule map_fst_zip)
  ultimately show ?thesis using t by (simp add: tidy_def)
qed

text \<open>What holds when the sweep of lines 196 to 237 has run to its end.\<close>

lemma sweep_facts:
  assumes "sweep CODONS length' errorIncrement iterations w = Some (Inr (st, w'))"
  obtains levels where
    "range_from_0 length' errorIncrement = Inr levels"
    "distinct levels"
    "tidy st"
    "errorCounts st = concat (map (replicate (nat iterations)) levels)"
    "nonnegative (diamond w) \<Longrightarrow>
       list_all (\<lambda>p. snd (snd p) = matchColor \<longrightarrow> 0 \<le> fst (snd p)) (entries st)"
proof -
  from assms obtain levels where
    r: "range_from_0 length' errorIncrement = Inr levels"
    and f: "for_errorCount CODONS length' iterations levels initial w = Some (Inr (st, w'))"
    by (auto simp: sweep_def split: sum.splits)
  note t = for_errorCount_tidy[OF f tidy_initial]
  have "errorCounts st = concat (map (replicate (nat iterations)) levels)"
    using t by (simp add: initial_def)
  moreover have "entries initial = []" by (simp add: entries_def initial_def)
  then have "list_all (\<lambda>p. snd (snd p) = matchColor \<longrightarrow> 0 \<le> fst (snd p)) (entries st)"
    if "nonnegative (diamond w)"
    using t that by simp
  ultimately show ?thesis
    using that[OF r range_from_0_distinct[OF r]] t by blast
qed

lemma level_counts:
  assumes "tidy st" and "errorCounts st = concat (map (replicate n) levels)"
    and "distinct levels" and "e \<in> set levels"
  shows "successCounts st e + missCounts st e = int n"
    and "0 \<le> successCounts st e" and "0 \<le> missCounts st e"
    and "missCounts st e \<le> int n" and "successCounts st e \<le> int n"
proof -
  show a: "successCounts st e + missCounts st e = int n"
    using tidy_accounts[OF assms(1), of e] assms(2) count_in_levels[OF assms(3,4), of n]
    by simp
  show b: "0 \<le> successCounts st e" and c: "0 \<le> missCounts st e"
    using assms(1) by (simp_all add: tidy_def)
  show "missCounts st e \<le> int n" and "successCounts st e \<le> int n"
    using a b c by linarith+
qed

section \<open>The claims about the sweep\<close>

lemma stacked_decreasing: "sorted_wrt (>) (map stacked [1..<Suc m])"
proof -
  have "sorted_wrt (<) [1..<Suc m]" by (rule sorted_wrt_upt)
  then have "sorted_wrt (\<lambda>x y. stacked x > stacked y) [1..<Suc m]"
    by (rule sorted_wrt_mono_rel[rotated]) (simp add: stacked_def zeroBitscoreScale_def)
  then show ?thesis by (simp add: sorted_wrt_map)
qed

text \<open>
  C10. When the sweep has run to its end with \<open>iterations \<ge> 0\<close>, the two counters of
  every level visited add up to \<open>iterations\<close>, and \<^verbatim>\<open>errorCounts\<close>, \<^verbatim>\<open>bitscores\<close>
  and \<^verbatim>\<open>color\<close> are equally long.
\<close>

theorem sweep_counters_add_up:
  assumes s: "sweep CODONS length' errorIncrement iterations w = Some (Inr (st, w'))"
    and i: "0 \<le> iterations"
    and r: "range_from_0 length' errorIncrement = Inr levels"
  shows "(\<forall>errorCount \<in> set levels.
            successCounts st errorCount + missCounts st errorCount = iterations) \<and>
         length (errorCounts st) = length (bitscores st) \<and>
         length (bitscores st) = length (color st)"
proof -
  from s obtain levels' where
    f: "range_from_0 length' errorIncrement = Inr levels'" "distinct levels'" "tidy st"
       "errorCounts st = concat (map (replicate (nat iterations)) levels')"
    by (rule sweep_facts)
  with r have eq: "levels' = levels" by simp
  have "successCounts st e + missCounts st e = iterations" if "e \<in> set levels" for e
    using level_counts(1)[OF f(3,4,2), of e] that eq i by simp
  moreover have "length (errorCounts st) = length (bitscores st)"
    and "length (bitscores st) = length (color st)"
    using f(3) by (simp_all add: tidy_def)
  ultimately show ?thesis by blast
qed

theorem sweep_counters_add_up_witness:
  "(0::int) \<le> 2 \<and> range_from_0 3 2 = Inr [0, 2] \<and>
   (\<exists>st w'. sweep AC 3 2 2 small_world = Some (Inr (st, w')) \<and>
      successCounts st 0 + missCounts st 0 = 2 \<and>
      successCounts st 2 + missCounts st 2 = 2 \<and>
      length (errorCounts st) = length (bitscores st) \<and>
      length (bitscores st) = length (color st))"
proof -
  have "case sweep AC 3 2 2 small_world of Some (Inr (st, w')) \<Rightarrow> True | _ \<Rightarrow> False"
    by code_simp
  then obtain st w' where s: "sweep AC 3 2 2 small_world = Some (Inr (st, w'))"
    by (auto split: option.splits sum.splits)
  have r: "range_from_0 3 2 = Inr [0, 2]" by code_simp
  from sweep_counters_add_up[OF s _ r] s r show ?thesis by auto
qed

lemma length_blocks: "length (concat (map (replicate n) levels)) = length levels * n"
  by (induction levels) simp_all

text \<open>
  C2. A trial that times out changes nothing but the world: the loop goes on with the
  same \<open>iteration\<close>, lists and counters. So a finished inner loop (with
  \<open>iterations \<ge> 0\<close>) has read answers of \<^verbatim>\<open>diamond\<close> of which exactly
  \<open>iterations\<close> are not timeouts, however many timeouts lie between them, and it has
  added exactly \<open>iterations\<close> plotted values and colours and \<open>iterations\<close> to the sum
  of the two counters of its level; and after a finished sweep every level has exactly
  \<open>iterations\<close> recorded points.
\<close>

theorem timeout_records_nothing:
  "(iteration < iterations \<and>
    sampleBitScore CODONS errorCount length' w = Some (TimeoutExpired wt) \<longrightarrow>
      while_iteration CODONS errorCount length' iterations iteration st w
        = while_iteration CODONS errorCount length' iterations iteration st wt) \<and>
   (0 \<le> iterations \<and>
    while_iteration CODONS errorCount length' iterations 0 st w = Some (Inr (st', w')) \<longrightarrow>
      (\<exists>consumed. diamond w = consumed @ diamond w' \<and>
         length (filter (\<lambda>a. a \<noteq> Hangs) consumed) = nat iterations) \<and>
      length (bitscores st') = length (bitscores st) + nat iterations \<and>
      length (color st') = length (color st) + nat iterations \<and>
      errorCounts st' = errorCounts st \<and>
      successCounts st' errorCount + missCounts st' errorCount
        = successCounts st errorCount + missCounts st errorCount + iterations) \<and>
   (0 \<le> iterations \<and>
    sweep CODONS length' errorIncrement iterations w = Some (Inr (final, w'')) \<and>
    range_from_0 length' errorIncrement = Inr levels \<longrightarrow>
      (\<forall>e \<in> set levels. length (filter (\<lambda>p. fst p = e) (entries final)) = nat iterations))"
proof (intro conjI impI)
  assume "iteration < iterations \<and>
    sampleBitScore CODONS errorCount length' w = Some (TimeoutExpired wt)"
  then show "while_iteration CODONS errorCount length' iterations iteration st w
        = while_iteration CODONS errorCount length' iterations iteration st wt"
    by (subst while_iteration.simps) simp
next
  assume a: "0 \<le> iterations \<and>
    while_iteration CODONS errorCount length' iterations 0 st w = Some (Inr (st', w'))"
  then obtain consumed where
    c: "diamond w = consumed @ diamond w'"
    and r: "st' = records errorCount (List.map_filter returned consumed) st"
    and l: "int (length (List.map_filter returned consumed)) = max 0 (iterations - 0)"
    and h: "length (filter (\<lambda>a. a \<noteq> Hangs) consumed)
              = length (List.map_filter returned consumed)"
    using while_iteration_records by blast
  let ?scores = "List.map_filter returned consumed"
  have len: "length ?scores = nat iterations" using l by linarith
  show "\<exists>consumed. diamond w = consumed @ diamond w' \<and>
         length (filter (\<lambda>a. a \<noteq> Hangs) consumed) = nat iterations"
    using c h len by auto
  show "length (bitscores st') = length (bitscores st) + nat iterations"
    unfolding r by (simp add: records_effect length_outcomes len)
  show "length (color st') = length (color st) + nat iterations"
    unfolding r by (simp add: records_effect length_outcomes len)
  show "errorCounts st' = errorCounts st"
    unfolding r by (simp add: records_effect)
  have "length (filter (\<lambda>s. s = 0) ?scores) + length (filter (\<lambda>s. s \<noteq> 0) ?scores)
          = length ?scores"
    using sum_length_filter_compl[of "\<lambda>s. s = 0" ?scores] by simp
  then have "int (length (filter (\<lambda>s. s = 0) ?scores))
             + int (length (filter (\<lambda>s. s \<noteq> 0) ?scores)) = iterations"
    using len a by linarith
  then show "successCounts st' errorCount + missCounts st' errorCount
        = successCounts st errorCount + missCounts st errorCount + iterations"
    unfolding r by (simp add: records_effect)
next
  assume a: "0 \<le> iterations \<and>
    sweep CODONS length' errorIncrement iterations w = Some (Inr (final, w'')) \<and>
    range_from_0 length' errorIncrement = Inr levels"
  then have s: "sweep CODONS length' errorIncrement iterations w = Some (Inr (final, w''))"
    by simp
  from s obtain levels' where
    f: "range_from_0 length' errorIncrement = Inr levels'" "distinct levels'" "tidy final"
       "errorCounts final = concat (map (replicate (nat iterations)) levels')"
    by (rule sweep_facts)
  with a have eq: "levels' = levels" by simp
  have l: "length (errorCounts final) = length (zip (bitscores final) (color final))"
    using f(3) by (simp add: tidy_def)
  have m: "map fst (entries final) = errorCounts final"
    unfolding entries_def using l by (rule map_fst_zip)
  show "\<forall>e \<in> set levels. length (filter (\<lambda>p. fst p = e) (entries final)) = nat iterations"
  proof
    fix e assume e: "e \<in> set levels"
    have "length (filter (\<lambda>p. fst p = e) (entries final))
          = length (filter (\<lambda>x. x = e) (map fst (entries final)))"
      by (simp add: comp_def)
    also have "\<dots> = nat iterations"
      unfolding m f(4) using f(2) e eq by (intro count_in_levels) simp_all
    finally show "length (filter (\<lambda>p. fst p = e) (entries final)) = nat iterations" .
  qed
qed

theorem timeout_records_nothing_witness:
  "(\<exists>wt. (0::int) < 2 \<and> sampleBitScore AC 2 3 timeout_world = Some (TimeoutExpired wt) \<and>
      while_iteration AC 2 3 2 0 initial timeout_world
        = while_iteration AC 2 3 2 0 initial wt) \<and>
   (\<exists>st' w'. while_iteration AC 2 3 2 0 initial timeout_world = Some (Inr (st', w')) \<and>
      diamond w' = [] \<and>
      length (bitscores st') = 2 \<and> length (color st') = 2 \<and>
      successCounts st' 2 + missCounts st' 2 = 2)"
proof -
  have "case sampleBitScore AC 2 3 timeout_world of
          Some (TimeoutExpired wt) \<Rightarrow> True | _ \<Rightarrow> False"
    by code_simp
  then obtain wt where t: "sampleBitScore AC 2 3 timeout_world = Some (TimeoutExpired wt)"
    by (auto split: option.splits outcome.splits)
  have "case while_iteration AC 2 3 2 0 initial timeout_world of
          Some (Inr (st', w')) \<Rightarrow> diamond w' = [] | _ \<Rightarrow> False"
    by code_simp
  then obtain st' w' where
    r: "while_iteration AC 2 3 2 0 initial timeout_world = Some (Inr (st', w'))"
    and d: "diamond w' = []"
    by (auto split: option.splits sum.splits)
  note T = timeout_records_nothing[where CODONS = AC and errorCount = 2 and length' = 3
      and iterations = 2 and iteration = 0 and st = initial and w = timeout_world
      and wt = wt and st' = st' and w' = w']
  have one: "while_iteration AC 2 3 2 0 initial timeout_world
        = while_iteration AC 2 3 2 0 initial wt"
    using T t by simp
  have two: "length (bitscores st') = 2 \<and> length (color st') = 2 \<and>
      successCounts st' 2 + missCounts st' 2 = 2"
    using T r by (simp add: initial_def)
  have first: "\<exists>wt. (0::int) < 2 \<and>
      sampleBitScore AC 2 3 timeout_world = Some (TimeoutExpired wt) \<and>
      while_iteration AC 2 3 2 0 initial timeout_world
        = while_iteration AC 2 3 2 0 initial wt"
    using t one by (intro exI[of _ wt]) simp
  have second: "\<exists>st' w'.
      while_iteration AC 2 3 2 0 initial timeout_world = Some (Inr (st', w')) \<and>
      diamond w' = [] \<and>
      length (bitscores st') = 2 \<and> length (color st') = 2 \<and>
      successCounts st' 2 + missCounts st' 2 = 2"
    using r d two by (intro exI[of _ st'] exI[of _ w']) simp
  from first second show ?thesis by (rule conjI)
qed

section \<open>The claims about the match rate and the axes\<close>

lemma plot_parts:
  assumes "plot CODONS length' errorIncrement iterations w = Some (Inr ((st, cell), w'))"
  obtains levels where
    "sweep CODONS length' errorIncrement iterations w = Some (Inr (st, w'))"
    "range_from_0 length' errorIncrement = Inr levels"
    "levels = [] \<or> iterations \<noteq> 0"
    "bitscores st \<noteq> []"
    "cell = \<lparr>scatter_x = errorCounts st,
              scatter_y = bitscores st,
              scatter_color = color st,
              xlim = (0, of_int (length' + 1)),
              ylim = (of_int (- (iterations + 1) * zeroBitscoreScale),
                      Max (set (bitscores st)) + 5),
              successX = levels,
              successY = map (\<lambda>errorCount.
                 of_int (successCounts st errorCount) / of_int iterations) levels\<rparr>"
  using assms unfolding plot_def
  by (auto split: option.splits sum.splits if_splits)

text \<open>A call of \<^verbatim>\<open>plot\<close> that returns has swept at least one level at least once.\<close>

lemma plot_facts:
  assumes p: "plot CODONS length' errorIncrement iterations w = Some (Inr ((st, cell), w'))"
  obtains levels where
    "sweep CODONS length' errorIncrement iterations w = Some (Inr (st, w'))"
    "range_from_0 length' errorIncrement = Inr levels"
    "distinct levels" "levels \<noteq> []" "1 \<le> iterations" "tidy st"
    "errorCounts st = concat (map (replicate (nat iterations)) levels)"
    "scatter_x cell = errorCounts st" "scatter_y cell = bitscores st"
    "scatter_color cell = color st" "successX cell = levels"
    "successY cell = map (\<lambda>errorCount.
        of_int (successCounts st errorCount) / of_int iterations) levels"
proof -
  from p obtain levels where
    a: "sweep CODONS length' errorIncrement iterations w = Some (Inr (st, w'))"
       "range_from_0 length' errorIncrement = Inr levels"
       "bitscores st \<noteq> []"
    and c: "cell = \<lparr>scatter_x = errorCounts st,
              scatter_y = bitscores st,
              scatter_color = color st,
              xlim = (0, of_int (length' + 1)),
              ylim = (of_int (- (iterations + 1) * zeroBitscoreScale),
                      Max (set (bitscores st)) + 5),
              successX = levels,
              successY = map (\<lambda>errorCount.
                 of_int (successCounts st errorCount) / of_int iterations) levels\<rparr>"
    by (rule plot_parts)
  from a(1) obtain levels' where
    f: "range_from_0 length' errorIncrement = Inr levels'" "distinct levels'" "tidy st"
       "errorCounts st = concat (map (replicate (nat iterations)) levels')"
    by (rule sweep_facts)
  with a(2) have eq: "levels' = levels" by simp
  have "length (errorCounts st) = length (bitscores st)" using f(3) by (simp add: tidy_def)
  then have "length levels * nat iterations \<noteq> 0"
    using a(3) f(4) eq by (simp add: length_blocks)
  then have "levels \<noteq> []" and "1 \<le> iterations" by auto
  then show ?thesis
    using that[OF a(1,2) f(2)[unfolded eq] _ _ f(3) f(4)[unfolded eq]] c by simp
qed


text \<open>
  C6. For \<open>length \<ge> 1\<close>, \<open>errorIncrement \<ge> 1\<close> and \<open>iterations \<ge> 1\<close>, a call of
  \<^verbatim>\<open>plot\<close> that returns has swept the levels \<open>0, errorIncrement, 2 * errorIncrement, ...\<close>
  below \<open>length\<close>, which are exactly the multiples of \<open>errorIncrement\<close> from 0 that are
  less than \<open>length\<close>; it has recorded \<open>iterations\<close> points at each level in turn, so
  (number of levels) times \<open>iterations\<close> points, and the match rate has one point per
  level. For \<open>length = 10\<close>, \<open>errorIncrement = 5\<close>, \<open>iterations = 3\<close>: the levels 0 and
  5, six points, two match rates.
\<close>

theorem plot_levels:
  assumes p: "plot CODONS length' errorIncrement iterations w = Some (Inr ((st, cell), w'))"
    and "1 \<le> length'" and "1 \<le> errorIncrement" and "1 \<le> iterations"
  shows "successX cell
           = map (\<lambda>k. int k * errorIncrement) [0..<nat ((length' - 1) div errorIncrement + 1)] \<and>
         set (successX cell) = {e. 0 \<le> e \<and> e < length' \<and> errorIncrement dvd e} \<and>
         scatter_x cell = concat (map (replicate (nat iterations)) (successX cell)) \<and>
         length (scatter_y cell) = length (successX cell) * nat iterations \<and>
         length (scatter_color cell) = length (successX cell) * nat iterations \<and>
         length (successY cell) = length (successX cell)"
proof -
  from p obtain levels where
    r: "range_from_0 length' errorIncrement = Inr levels"
    and f: "tidy st" "errorCounts st = concat (map (replicate (nat iterations)) levels)"
    and c: "scatter_x cell = errorCounts st" "scatter_y cell = bitscores st"
       "scatter_color cell = color st" "successX cell = levels"
       "successY cell = map (\<lambda>errorCount.
          of_int (successCounts st errorCount) / of_int iterations) levels"
    by (rule plot_facts)
  have lv: "levels = map (\<lambda>k. int k * errorIncrement)
                       [0..<nat ((length' - 1) div errorIncrement + 1)]"
    using r range_from_0_positive[OF assms(2,3)] by simp
  have st: "set levels = {e. 0 \<le> e \<and> e < length' \<and> errorIncrement dvd e}"
    unfolding lv using assms(2,3) by (rule multiples_below)
  have l: "length (errorCounts st) = length (bitscores st)"
          "length (bitscores st) = length (color st)"
    using f(1) by (simp_all add: tidy_def)
  have n: "length (errorCounts st) = length levels * nat iterations"
    unfolding f(2) by (rule length_blocks)
  show ?thesis
    unfolding c using lv st f(2) l n by simp
qed

theorem plot_levels_witness:
  "(1::int) \<le> 10 \<and> (1::int) \<le> 5 \<and> (1::int) \<le> 3 \<and>
   (\<exists>st cell w'. plot AC 10 5 3 scenario_world = Some (Inr ((st, cell), w')) \<and>
      successX cell = [0, 5] \<and> scatter_x cell = [0, 0, 0, 5, 5, 5] \<and>
      length (scatter_y cell) = 6 \<and> length (scatter_color cell) = 6 \<and>
      length (successY cell) = 2)"
proof -
  have "case plot AC 10 5 3 scenario_world of
          Some (Inr ((st, cell), w')) \<Rightarrow> True | _ \<Rightarrow> False"
    by code_simp
  then obtain st cell w' where
    p: "plot AC 10 5 3 scenario_world = Some (Inr ((st, cell), w'))"
    by (auto split: option.splits sum.splits)
  have u: "[0..<nat ((10 - 1) div 5 + 1)] = [0, 1]" by (simp add: upt_rec)
  have r: "replicate 3 x = [x, x, x]" for x :: int
    by (simp add: numeral_3_eq_3)
  note T = plot_levels[OF p, unfolded u]
  have x: "successX cell = [0, 5]" using T by simp
  have "scatter_x cell = [0, 0, 0, 5, 5, 5] \<and>
      length (scatter_y cell) = 6 \<and> length (scatter_color cell) = 6 \<and>
      length (successY cell) = 2"
    using T unfolding x by (simp add: r)
  with p x show ?thesis by (intro conjI exI[of _ st] exI[of _ cell] exI[of _ w']) simp_all
qed

text \<open>
  C8. When \<^verbatim>\<open>plot\<close> returns, the horizontal bounds are \<open>0\<close> and \<open>length + 1\<close>, the
  vertical bounds are \<open>-(iterations + 1) * zeroBitscoreScale\<close> and the largest plotted
  value plus 5; no level has more than \<open>iterations\<close> misses, every point in the miss
  colour lies strictly above the lower bound, and every plotted value lies strictly
  below the upper bound.
\<close>

theorem plot_axis_bounds:
  assumes p: "plot CODONS length' errorIncrement iterations w = Some (Inr ((st, cell), w'))"
  shows "xlim cell = (0, of_int (length' + 1)) \<and>
         ylim cell = (of_int (- (iterations + 1) * zeroBitscoreScale),
                      Max (set (scatter_y cell)) + 5) \<and>
         (\<forall>e \<in> set (successX cell). missCounts st e \<le> iterations) \<and>
         (\<forall>p \<in> set (zip (scatter_y cell) (scatter_color cell)).
            snd p = missColor \<longrightarrow> fst (ylim cell) < fst p) \<and>
         (\<forall>v \<in> set (scatter_y cell). v < snd (ylim cell))"
proof -
  from p obtain levels0 where
    c0: "cell = \<lparr>scatter_x = errorCounts st,
              scatter_y = bitscores st,
              scatter_color = color st,
              xlim = (0, of_int (length' + 1)),
              ylim = (of_int (- (iterations + 1) * zeroBitscoreScale),
                      Max (set (bitscores st)) + 5),
              successX = levels0,
              successY = map (\<lambda>errorCount.
                 of_int (successCounts st errorCount) / of_int iterations) levels0\<rparr>"
    by (rule plot_parts)
  from p obtain levels where
    f: "distinct levels" "1 \<le> iterations" "tidy st"
       "errorCounts st = concat (map (replicate (nat iterations)) levels)"
    and c: "successX cell = levels"
    by (rule plot_facts)
  have x: "xlim cell = (0, of_int (length' + 1))" using c0 by simp
  have y: "ylim cell = (of_int (- (iterations + 1) * zeroBitscoreScale),
                        Max (set (scatter_y cell)) + 5)"
    using c0 by simp
  have sy: "scatter_y cell = bitscores st" and sc: "scatter_color cell = color st"
    using c0 by simp_all
  have mc: "missCounts st e \<le> iterations" if "e \<in> set levels" for e
    using level_counts(4)[OF f(3,4,1) that] f(2) by simp
  have up: "v < snd (ylim cell)" if "v \<in> set (scatter_y cell)" for v
  proof -
    have "v \<le> Max (set (scatter_y cell))" using that by simp
    then show ?thesis unfolding y by simp
  qed
  have l: "length (errorCounts st) = length (zip (bitscores st) (color st))"
    using f(3) by (simp add: tidy_def)
  have lo: "fst (ylim cell) < fst q"
    if q: "q \<in> set (zip (scatter_y cell) (scatter_color cell))" and m: "snd q = missColor" for q
  proof -
    have "map snd (entries st) = zip (bitscores st) (color st)"
      unfolding entries_def using l by (rule map_snd_zip)
    with q have "q \<in> snd ` set (entries st)" unfolding sy sc by (metis set_map)
    then obtain e where e: "(e, q) \<in> set (entries st)" by force
    then have el: "e \<in> set levels"
      using f(4) by (auto simp: entries_def dest!: set_zip_leftD)
    have "fst q \<in> set (miss_values e st)"
      unfolding miss_values_def using e m by force
    also have "miss_values e st = map stacked [1..<Suc (nat (missCounts st e))]"
      using f(3) by (simp add: tidy_def)
    finally obtain k where k: "fst q = stacked k" "k \<le> nat (missCounts st e)"
      by auto
    have "int k \<le> iterations" using k(2) mc[OF el] f(2) by linarith
    then have "real_of_int (- (iterations + 1) * zeroBitscoreScale) < stacked k"
      by (simp add: stacked_def zeroBitscoreScale_def)
    then show ?thesis unfolding y k(1) by simp
  qed
  from x y mc up lo c show ?thesis by blast
qed

theorem plot_axis_bounds_witness:
  "\<exists>st cell w'. plot AC 10 5 3 scenario_world = Some (Inr ((st, cell), w')) \<and>
      scatter_y cell = [50, - 2, 3, - 2, - 4, 7] \<and>
      xlim cell = (0, 11) \<and> ylim cell = (- 8, 55) \<and>
      missCounts st 0 \<le> 3 \<and> missCounts st 5 \<le> 3 \<and>
      list_all (\<lambda>v. v < 55) (scatter_y cell)"
proof -
  have "case plot AC 10 5 3 scenario_world of
          Some (Inr ((st, cell), w')) \<Rightarrow>
            scatter_y cell = [50, - 2, 3, - 2, - 4, 7] \<and> successX cell = [0, 5]
        | _ \<Rightarrow> False"
    by code_simp
  then obtain st cell w' where
    p: "plot AC 10 5 3 scenario_world = Some (Inr ((st, cell), w'))"
    and v: "scatter_y cell = [50, - 2, 3, - 2, - 4, 7]" and s: "successX cell = [0, 5]"
    by (auto split: option.splits sum.splits)
  note T = plot_axis_bounds[OF p]
  have x: "xlim cell = (0, 11)" using T by simp
  have y: "ylim cell = (- 8, 55)" using T unfolding v by (simp add: zeroBitscoreScale_def)
  have m: "missCounts st 0 \<le> 3 \<and> missCounts st 5 \<le> 3" using T unfolding s by simp
  have a: "list_all (\<lambda>v. v < 55) (scatter_y cell)"
    using T unfolding y by (simp add: list_all_iff)
  show ?thesis
    using p v x y m a by (intro exI[of _ st] exI[of _ cell] exI[of _ w']) simp
qed

section \<open>The redraw loop ends\<close>

text \<open>
  The loop of line 108 stops at the first draw that differs from the residue in place:
  on a tape that holds such a draw it returns a residue, and that can only fail to
  happen on a tape of draws that all repeat the residue.
\<close>

lemma while_newAA_returns:
  assumes "aas \<noteq> []"
    and "\<exists>r \<in> set rs. aas ! (r mod length aas) \<noteq> existingAA"
  shows "\<exists>a rs'. while_newAA aas existingAA existingAA rs = Some (Inr (a, rs'))"
  using assms(2)
proof (induction rs)
  case Nil
  then show ?case by simp
next
  case (Cons r rs)
  let ?a = "aas ! (r mod length aas)"
  have step: "while_newAA aas existingAA existingAA (r # rs)
              = while_newAA aas existingAA ?a rs"
    using assms(1) by (subst while_newAA.simps) (simp add: choice_def)
  show ?case
  proof (cases "?a = existingAA")
    case True
    with Cons.prems have "\<exists>r \<in> set rs. aas ! (r mod length aas) \<noteq> existingAA" by auto
    from Cons.IH[OF this] show ?thesis unfolding step True .
  next
    case False
    then have "while_newAA aas existingAA ?a rs = Some (Inr (?a, rs))"
      by (subst while_newAA.simps) simp
    then show ?thesis unfolding step by blast
  qed
qed

section \<open>The recorded points and the scores of the trials\<close>

lemma map_filter_append:
  "List.map_filter f (xs @ ys) = List.map_filter f xs @ List.map_filter f ys"
  by (simp add: List.map_filter_def)

lemma trial_scores_consumed:
  "diamond w = consumed @ diamond w' \<Longrightarrow> trial_scores w w' = List.map_filter returned consumed"
  by (simp add: trial_scores_def)

lemma concat_blocks_nth:
  "\<forall>b \<in> set bs. length b = n \<Longrightarrow> i < length bs \<Longrightarrow> t < n \<Longrightarrow>
   concat bs ! (i * n + t) = bs ! i ! t"
proof (induction bs arbitrary: i)
  case Nil
  then show ?case by simp
next
  case (Cons b bs)
  show ?case
  proof (cases i)
    case 0
    with Cons.prems show ?thesis by (simp add: nth_append)
  next
    case (Suc k)
    with Cons.prems have "concat bs ! (k * n + t) = bs ! k ! t"
      by (intro Cons.IH) simp_all
    with Suc Cons.prems show ?thesis by (simp add: nth_append)
  qed
qed

lemma concat_blocks_level:
  "\<forall>b \<in> set bs. length b = n \<Longrightarrow> i < length bs \<Longrightarrow>
   level_scores n i (concat bs) = bs ! i"
proof (induction bs arbitrary: i)
  case Nil
  then show ?case by simp
next
  case (Cons b bs)
  show ?case
  proof (cases i)
    case 0
    with Cons.prems show ?thesis by (simp add: level_scores_def)
  next
    case (Suc k)
    with Cons.prems have "level_scores n k (concat bs) = bs ! k"
      by (intro Cons.IH) simp_all
    with Suc Cons.prems show ?thesis by (simp add: level_scores_def)
  qed
qed

text \<open>The point recorded for the \<open>t\<close>-th of a list of scores.\<close>

lemma outcomes_nth:
  "t < length scores \<Longrightarrow>
   outcomes m scores ! t =
     (if scores ! t = 0
      then (of_int (- (m + int (length (filter (\<lambda>s. s = 0) (take (Suc t) scores))))
                    * zeroBitscoreScale), missColor)
      else (scores ! t, matchColor))"
proof (induction scores arbitrary: m t)
  case Nil
  then show ?case by simp
next
  case (Cons score scores)
  show ?case
  proof (cases t)
    case 0
    then show ?thesis by simp
  next
    case (Suc k)
    with Cons.prems have k: "k < length scores" by simp
    show ?thesis
      using Suc Cons.IH[OF k, of "m + 1"] Cons.IH[OF k, of m]
      by (simp add: algebra_simps)
  qed
qed

text \<open>
  What the outer loop has recorded when it ends, level by level: the scores of the
  trials of each level (as many as \<open>nat iterations\<close>), the points appended for them,
  and the counters of the level.
\<close>

lemma for_errorCount_scores:
  "for_errorCount CODONS length' iterations levels st w = Some (Inr (st', w')) \<Longrightarrow>
   distinct levels \<Longrightarrow>
   length (errorCounts st) = length (bitscores st) \<Longrightarrow>
   length (bitscores st) = length (color st) \<Longrightarrow>
   \<exists>sss. length sss = length levels \<and> (\<forall>ss \<in> set sss. length ss = nat iterations) \<and>
     (\<exists>consumed. diamond w = consumed @ diamond w' \<and>
                 List.map_filter returned consumed = concat sss) \<and>
     entries st' = entries st @
        concat (map (\<lambda>p. map (Pair (fst p)) (outcomes (missCounts st (fst p)) (snd p)))
                  (zip levels sss)) \<and>
     (\<forall>i < length levels.
        missCounts st' (levels ! i)
          = missCounts st (levels ! i) + int (length (filter (\<lambda>s. s = 0) (sss ! i))) \<and>
        successCounts st' (levels ! i)
          = successCounts st (levels ! i) + int (length (filter (\<lambda>s. s \<noteq> 0) (sss ! i)))) \<and>
     (\<forall>e. e \<notin> set levels \<longrightarrow>
        missCounts st' e = missCounts st e \<and> successCounts st' e = successCounts st e) \<and>
     length (errorCounts st') = length (bitscores st') \<and>
     length (bitscores st') = length (color st')"
proof (induction levels arbitrary: st w)
  case Nil
  then show ?case by (intro exI[of _ "[]"]) simp
next
  case (Cons errorCount rest)
  let ?n = "nat iterations"
  from Cons.prems(1) obtain st1 w1 where
    wh: "while_iteration CODONS errorCount length' iterations 0 st w = Some (Inr (st1, w1))"
    and fr: "for_errorCount CODONS length' iterations rest
               (st1\<lparr>errorCounts := errorCounts st1 @ replicate ?n errorCount\<rparr>) w1
             = Some (Inr (st', w'))"
    by (auto split: option.splits sum.splits)
  from while_iteration_records[OF wh] obtain c1 where
    c1: "diamond w = c1 @ diamond w1"
    and r: "st1 = records errorCount (List.map_filter returned c1) st"
    and l: "int (length (List.map_filter returned c1)) = max 0 (iterations - 0)"
    by blast
  let ?ss = "List.map_filter returned c1"
  let ?st2 = "block ?n errorCount ?ss st"
  have len: "length ?ss = ?n" using l by linarith
  have st2: "st1\<lparr>errorCounts := errorCounts st1 @ replicate ?n errorCount\<rparr> = ?st2"
    using r by (simp add: block_def Let_def)
  have a1: "length (errorCounts ?st2) = length (bitscores ?st2)"
    using Cons.prems(3) len by (simp add: block_lists length_outcomes)
  have a2: "length (bitscores ?st2) = length (color ?st2)"
    using Cons.prems(4) by (simp add: block_lists)
  have d: "distinct rest" and ne: "errorCount \<notin> set rest" using Cons.prems(2) by simp_all
  from Cons.IH[OF fr[unfolded st2] d a1 a2] obtain sss c2 where
    i1: "length sss = length rest" and i2: "\<forall>ss \<in> set sss. length ss = ?n"
    and i3: "diamond w1 = c2 @ diamond w'" "List.map_filter returned c2 = concat sss"
    and i4: "entries st' = entries ?st2 @
        concat (map (\<lambda>p. map (Pair (fst p)) (outcomes (missCounts ?st2 (fst p)) (snd p)))
                  (zip rest sss))"
    and i5: "\<And>i. i < length rest \<Longrightarrow>
        missCounts st' (rest ! i)
          = missCounts ?st2 (rest ! i) + int (length (filter (\<lambda>s. s = 0) (sss ! i))) \<and>
        successCounts st' (rest ! i)
          = successCounts ?st2 (rest ! i) + int (length (filter (\<lambda>s. s \<noteq> 0) (sss ! i)))"
    and i6: "\<And>e. e \<notin> set rest \<Longrightarrow>
        missCounts st' e = missCounts ?st2 e \<and> successCounts st' e = successCounts ?st2 e"
    and i7: "length (errorCounts st') = length (bitscores st')"
            "length (bitscores st') = length (color st')"
    by blast
  have other: "missCounts ?st2 e = missCounts st e \<and> successCounts ?st2 e = successCounts st e"
    if "e \<noteq> errorCount" for e
    using that by (simp add: block_lists)
  have b1: "length (?ss # sss) = length (errorCount # rest)" using i1 by simp
  have b2: "\<forall>ss \<in> set (?ss # sss). length ss = ?n" using i2 len by simp
  have b3: "diamond w = (c1 @ c2) @ diamond w' \<and>
            List.map_filter returned (c1 @ c2) = concat (?ss # sss)"
    using c1 i3 by (simp add: map_filter_append)
  have same: "map (\<lambda>p. map (Pair (fst p)) (outcomes (missCounts ?st2 (fst p)) (snd p)))
                (zip rest sss)
            = map (\<lambda>p. map (Pair (fst p)) (outcomes (missCounts st (fst p)) (snd p)))
                (zip rest sss)"
  proof (rule map_cong[OF refl])
    fix p assume "p \<in> set (zip rest sss)"
    then have "fst p \<in> set rest" by (metis prod.collapse set_zip_leftD)
    with ne have "fst p \<noteq> errorCount" by auto
    then show "map (Pair (fst p)) (outcomes (missCounts ?st2 (fst p)) (snd p))
             = map (Pair (fst p)) (outcomes (missCounts st (fst p)) (snd p))"
      using other by simp
  qed
  have b4: "entries st' = entries st @
        concat (map (\<lambda>p. map (Pair (fst p)) (outcomes (missCounts st (fst p)) (snd p)))
                  (zip (errorCount # rest) (?ss # sss)))"
    unfolding i4 same entries_block[OF Cons.prems(3,4) len] by simp
  have b5: "missCounts st' ((errorCount # rest) ! i)
          = missCounts st ((errorCount # rest) ! i)
            + int (length (filter (\<lambda>s. s = 0) ((?ss # sss) ! i))) \<and>
        successCounts st' ((errorCount # rest) ! i)
          = successCounts st ((errorCount # rest) ! i)
            + int (length (filter (\<lambda>s. s \<noteq> 0) ((?ss # sss) ! i)))"
    if "i < length (errorCount # rest)" for i
  proof (cases i)
    case 0
    then show ?thesis using i6[OF ne] by (simp add: block_lists)
  next
    case (Suc k)
    with that have k: "k < length rest" by simp
    then have "rest ! k \<noteq> errorCount" using ne by auto
    then show ?thesis using Suc i5[OF k] other by simp
  qed
  have b6: "missCounts st' e = missCounts st e \<and> successCounts st' e = successCounts st e"
    if "e \<notin> set (errorCount # rest)" for e
    using that i6[of e] other[of e] by simp
  show ?case
    using b1 b2 b3 b4 b5 b6 i7 by (intro exI[of _ "?ss # sss"]) blast
qed

lemma length_concat_blocks:
  "\<forall>b \<in> set bs. length b = n \<Longrightarrow> length (concat bs) = length bs * n"
  by (induction bs) simp_all

text \<open>
  The finished sweep, trial by trial: the \<open>t\<close>-th trial of the \<open>i\<close>-th level is the
  point at position \<open>i * n + t\<close> of the three lists, and the counters of a level count
  the scores of its trials that are 0 and that are not.
\<close>

lemma sweep_points:
  assumes s: "sweep CODONS length' errorIncrement iterations w = Some (Inr (st, w'))"
    and r: "range_from_0 length' errorIncrement = Inr levels"
  shows "length (trial_scores w w') = length levels * nat iterations"
    and "length (errorCounts st) = length (trial_scores w w')"
    and "length (bitscores st) = length (trial_scores w w')"
    and "length (color st) = length (trial_scores w w')"
    and "i < length levels \<Longrightarrow> t < nat iterations \<Longrightarrow>
         trial_scores w w' ! (i * nat iterations + t)
           = level_scores (nat iterations) i (trial_scores w w') ! t"
    and "i < length levels \<Longrightarrow> t < nat iterations \<Longrightarrow>
         errorCounts st ! (i * nat iterations + t) = levels ! i \<and>
         (bitscores st ! (i * nat iterations + t), color st ! (i * nat iterations + t))
           = outcomes 0 (level_scores (nat iterations) i (trial_scores w w')) ! t"
    and "i < length levels \<Longrightarrow>
         length (level_scores (nat iterations) i (trial_scores w w')) = nat iterations \<and>
         missCounts st (levels ! i)
           = int (length (filter (\<lambda>s. s = 0)
                   (level_scores (nat iterations) i (trial_scores w w')))) \<and>
         successCounts st (levels ! i)
           = int (length (filter (\<lambda>s. s \<noteq> 0)
                   (level_scores (nat iterations) i (trial_scores w w'))))"
proof -
  let ?n = "nat iterations"
  from s r have f: "for_errorCount CODONS length' iterations levels initial w
                      = Some (Inr (st, w'))"
    by (simp add: sweep_def)
  have d: "distinct levels" using r by (rule range_from_0_distinct)
  have i0: "length (errorCounts initial) = length (bitscores initial)"
           "length (bitscores initial) = length (color initial)"
    by (simp_all add: initial_def)
  from for_errorCount_scores[OF f d i0] obtain sss consumed where
    a1: "length sss = length levels" and a2: "\<forall>ss \<in> set sss. length ss = ?n"
    and a3: "diamond w = consumed @ diamond w'" "List.map_filter returned consumed = concat sss"
    and a4: "entries st = entries initial @
        concat (map (\<lambda>p. map (Pair (fst p)) (outcomes (missCounts initial (fst p)) (snd p)))
                  (zip levels sss))"
    and a5: "\<And>i. i < length levels \<Longrightarrow>
        missCounts st (levels ! i)
          = missCounts initial (levels ! i) + int (length (filter (\<lambda>s. s = 0) (sss ! i))) \<and>
        successCounts st (levels ! i)
          = successCounts initial (levels ! i)
            + int (length (filter (\<lambda>s. s \<noteq> 0) (sss ! i)))"
    and a7: "length (errorCounts st) = length (bitscores st)"
            "length (bitscores st) = length (color st)"
    by blast
  have sc: "trial_scores w w' = concat sss"
    using trial_scores_consumed[OF a3(1)] a3(2) by simp
  let ?bs = "map (\<lambda>p. map (Pair (fst p)) (outcomes 0 (snd p))) (zip levels sss)"
  have en: "entries st = concat ?bs"
    using a4 by (simp add: initial_def entries_def)
  have bl: "\<forall>b \<in> set ?bs. length b = ?n"
    using a2 by (auto simp: length_outcomes dest: set_zip_rightD)
  have lb: "length ?bs = length levels" using a1 by simp
  have le: "length (entries st) = length levels * ?n"
    unfolding en using length_concat_blocks[OF bl] lb by simp
  have lz: "length (entries st) = length (errorCounts st)"
    using a7 by (simp add: entries_def)
  show l1: "length (trial_scores w w') = length levels * ?n"
    unfolding sc using length_concat_blocks[OF a2] a1 by simp
  show l2: "length (errorCounts st) = length (trial_scores w w')"
    using l1 le lz by simp
  show l3: "length (bitscores st) = length (trial_scores w w')" using l2 a7 by simp
  show "length (color st) = length (trial_scores w w')" using l3 a7 by simp
  have lv: "level_scores ?n i (concat sss) = sss ! i" if "i < length levels" for i
    using a2 that a1 by (intro concat_blocks_level) simp_all
  show "trial_scores w w' ! (i * ?n + t) = level_scores ?n i (trial_scores w w') ! t"
    if i: "i < length levels" and t: "t < ?n"
    unfolding sc lv[OF i] using a2 i t a1 by (intro concat_blocks_nth) simp_all
  show "errorCounts st ! (i * ?n + t) = levels ! i \<and>
        (bitscores st ! (i * ?n + t), color st ! (i * ?n + t))
          = outcomes 0 (level_scores ?n i (trial_scores w w')) ! t"
    if i: "i < length levels" and t: "t < ?n"
  proof -
    have "i * ?n + t < Suc i * ?n" using t by simp
    also have "\<dots> \<le> length levels * ?n" using i by (intro mult_le_mono1) simp
    finally have j: "i * ?n + t < length (entries st)" using le by simp
    have tl: "t < length (outcomes 0 (sss ! i))"
      using t a2 i a1 by (simp add: length_outcomes)
    have "entries st ! (i * ?n + t) = ?bs ! i ! t"
      unfolding en using bl i t lb by (intro concat_blocks_nth) simp_all
    also have "\<dots> = (levels ! i, outcomes 0 (sss ! i) ! t)"
      using i a1 tl by simp
    finally have "entries st ! (i * ?n + t) = (levels ! i, outcomes 0 (sss ! i) ! t)" .
    moreover have "entries st ! (i * ?n + t)
        = (errorCounts st ! (i * ?n + t), bitscores st ! (i * ?n + t),
           color st ! (i * ?n + t))"
      using j a7 unfolding entries_def by simp
    ultimately show ?thesis unfolding sc lv[OF i] by simp
  qed
  show "length (level_scores ?n i (trial_scores w w')) = ?n \<and>
        missCounts st (levels ! i)
          = int (length (filter (\<lambda>s. s = 0) (level_scores ?n i (trial_scores w w')))) \<and>
        successCounts st (levels ! i)
          = int (length (filter (\<lambda>s. s \<noteq> 0) (level_scores ?n i (trial_scores w w'))))"
    if i: "i < length levels"
    unfolding sc lv[OF i] using a5[OF i] a2 i a1 by (simp add: initial_def)
qed

text \<open>
  C4. When the sweep has run to its end, its trials and its recorded points
  correspond one to one: with \<open>n = nat iterations\<close>, the \<open>t\<close>-th trial of the \<open>i\<close>-th
  level is the point at position \<open>i * n + t\<close>. If the score of that trial is 0 and it
  is the \<open>k\<close>-th trial of its level with score 0 (so \<open>k \<ge> 1\<close>), the point is plotted
  at \<open>-k * zeroBitscoreScale\<close> in the miss colour; if the score is not 0, the point is
  plotted at the score in the match colour. \<open>zeroBitscoreScale\<close> is 2, the miss counter
  of a level is the number of its trials with score 0, and the misses recorded at a
  level are, in the order of the trials, at \<open>-2, -4, ...\<close>, each strictly below the one
  before.
\<close>

theorem sweep_misses_stack:
  assumes s: "sweep CODONS length' errorIncrement iterations w = Some (Inr (st, w'))"
    and r: "range_from_0 length' errorIncrement = Inr levels"
  shows "length (trial_scores w w') = length levels * nat iterations \<and>
         length (errorCounts st) = length (trial_scores w w') \<and>
         length (bitscores st) = length (trial_scores w w') \<and>
         length (color st) = length (trial_scores w w') \<and>
         (\<forall>i < length levels. \<forall>t < nat iterations.
            let j = i * nat iterations + t;
                score = trial_scores w w' ! j;
                k = length (filter (\<lambda>s. s = 0)
                      (take (Suc t) (level_scores (nat iterations) i (trial_scores w w'))))
            in errorCounts st ! j = levels ! i \<and>
               level_scores (nat iterations) i (trial_scores w w') ! t = score \<and>
               (score = 0 \<longrightarrow>
                  1 \<le> k \<and>
                  bitscores st ! j = - (real k * real_of_int zeroBitscoreScale) \<and>
                  color st ! j = missColor) \<and>
               (score \<noteq> 0 \<longrightarrow> bitscores st ! j = score \<and> color st ! j = matchColor)) \<and>
         (\<forall>i < length levels.
            missCounts st (levels ! i)
              = int (length (filter (\<lambda>s. s = 0)
                      (level_scores (nat iterations) i (trial_scores w w'))))) \<and>
         miss_values errorCount st
           = map (\<lambda>k. - (real k * real_of_int zeroBitscoreScale))
               [1..<Suc (nat (missCounts st errorCount))] \<and>
         zeroBitscoreScale = 2 \<and>
         sorted_wrt (>) (miss_values errorCount st)"
proof -
  let ?n = "nat iterations"
  let ?scores = "trial_scores w w'"
  note sp = sweep_points[OF s r]
  have point: "let j = i * ?n + t;
                score = ?scores ! j;
                k = length (filter (\<lambda>s. s = 0) (take (Suc t) (level_scores ?n i ?scores)))
            in errorCounts st ! j = levels ! i \<and>
               level_scores ?n i ?scores ! t = score \<and>
               (score = 0 \<longrightarrow>
                  1 \<le> k \<and>
                  bitscores st ! j = - (real k * real_of_int zeroBitscoreScale) \<and>
                  color st ! j = missColor) \<and>
               (score \<noteq> 0 \<longrightarrow> bitscores st ! j = score \<and> color st ! j = matchColor)"
    if i: "i < length levels" and t: "t < ?n" for i t
  proof -
    let ?ss = "level_scores ?n i ?scores"
    let ?j = "i * ?n + t"
    have ls: "length ?ss = ?n" using sp(7)[OF i] by simp
    have sj: "?scores ! ?j = ?ss ! t" using sp(5)[OF i t] .
    have e: "errorCounts st ! ?j = levels ! i"
      and o: "(bitscores st ! ?j, color st ! ?j) = outcomes 0 ?ss ! t"
      using sp(6)[OF i t] by simp_all
    have on: "outcomes 0 ?ss ! t =
       (if ?ss ! t = 0
        then (of_int (- (0 + int (length (filter (\<lambda>s. s = 0) (take (Suc t) ?ss))))
                      * zeroBitscoreScale), missColor)
        else (?ss ! t, matchColor))"
      using t ls by (intro outcomes_nth) simp
    have k1: "1 \<le> length (filter (\<lambda>s. s = 0) (take (Suc t) ?ss))" if z: "?ss ! t = 0"
    proof -
      have "take (Suc t) ?ss ! t \<in> set (take (Suc t) ?ss)"
        using t ls by (intro nth_mem) simp
      then have "?ss ! t \<in> set (filter (\<lambda>s. s = 0) (take (Suc t) ?ss))"
        using z by simp
      then have "0 < length (filter (\<lambda>s. s = 0) (take (Suc t) ?ss))"
        by (rule length_pos_if_in_set)
      then show ?thesis by linarith
    qed
    show ?thesis
      unfolding Let_def sj using e o on k1 by (auto simp: algebra_simps)
  qed
  have misses: "missCounts st (levels ! i)
      = int (length (filter (\<lambda>s. s = 0) (level_scores ?n i ?scores)))"
    if "i < length levels" for i
    using sp(7)[OF that] by simp
  from s have t: "tidy st" by (rule sweep_facts)
  then have m: "miss_values errorCount st = map stacked [1..<Suc (nat (missCounts st errorCount))]"
    by (simp add: tidy_def)
  have "stacked = (\<lambda>k. - (real k * real_of_int zeroBitscoreScale))"
    by (simp add: stacked_def fun_eq_iff)
  with m stacked_decreasing[of "nat (missCounts st errorCount)"]
  have old: "miss_values errorCount st
           = map (\<lambda>k. - (real k * real_of_int zeroBitscoreScale))
               [1..<Suc (nat (missCounts st errorCount))] \<and>
         zeroBitscoreScale = 2 \<and>
         sorted_wrt (>) (miss_values errorCount st)"
    by (simp add: zeroBitscoreScale_def)
  from sp(1-4) point misses old show ?thesis by blast
qed

theorem sweep_misses_stack_witness:
  "range_from_0 3 2 = Inr [0, 2] \<and>
   (\<exists>st w'. sweep AC 3 2 2 small_world = Some (Inr (st, w')) \<and>
      trial_scores small_world w' = [50, 0, 0, 0] \<and>
      errorCounts st ! 3 = 2 \<and> bitscores st ! 3 = - 4 \<and> color st ! 3 = missColor \<and>
      errorCounts st ! 0 = 0 \<and> bitscores st ! 0 = 50 \<and> color st ! 0 = matchColor \<and>
      missCounts st 2 = 2 \<and> miss_values 2 st = [- 2, - 4] \<and>
      missCounts st 0 = 1 \<and> miss_values 0 st = [- 2])"
proof -
  have "case sweep AC 3 2 2 small_world of
          Some (Inr (st, w')) \<Rightarrow> diamond w' = [] \<and> missCounts st 2 = 2 \<and> missCounts st 0 = 1
        | _ \<Rightarrow> False"
    by code_simp
  then obtain st w' where s: "sweep AC 3 2 2 small_world = Some (Inr (st, w'))"
    and d: "diamond w' = []"
    and m: "missCounts st 2 = 2" "missCounts st 0 = 1"
    by (auto split: option.splits sum.splits)
  have r: "range_from_0 3 2 = Inr [0, 2]" by code_simp
  have ts: "trial_scores small_world w' = [50, 0, 0, 0]"
    by (simp add: trial_scores_def small_world_def d List.map_filter_simps)
  note T = sweep_misses_stack[OF s r]
  note P = T[THEN conjunct2, THEN conjunct2, THEN conjunct2, THEN conjunct2, THEN conjunct1,
             rule_format]
  have p3: "errorCounts st ! 3 = 2 \<and> bitscores st ! 3 = - 4 \<and> color st ! 3 = missColor"
    using P[of 1 1] by (simp add: Let_def ts level_scores_def zeroBitscoreScale_def)
  have p0: "errorCounts st ! 0 = 0 \<and> bitscores st ! 0 = 50 \<and> color st ! 0 = matchColor"
    using P[of 0 0] by (simp add: Let_def ts level_scores_def)
  have u: "[1..<Suc 2] = [1, 2]" "[1..<Suc 1] = [1]" by (simp_all add: upt_rec)
  have v2: "miss_values 2 st = [- 2, - 4]"
    using sweep_misses_stack[OF s r, of 2] m(1) u by (simp add: zeroBitscoreScale_def)
  have v0: "miss_values 0 st = [- 2]"
    using sweep_misses_stack[OF s r, of 0] m(2) u by (simp add: zeroBitscoreScale_def)
  have "\<exists>st w'. sweep AC 3 2 2 small_world = Some (Inr (st, w')) \<and>
      trial_scores small_world w' = [50, 0, 0, 0] \<and>
      errorCounts st ! 3 = 2 \<and> bitscores st ! 3 = - 4 \<and> color st ! 3 = missColor \<and>
      errorCounts st ! 0 = 0 \<and> bitscores st ! 0 = 50 \<and> color st ! 0 = matchColor \<and>
      missCounts st 2 = 2 \<and> miss_values 2 st = [- 2, - 4] \<and>
      missCounts st 0 = 1 \<and> miss_values 0 st = [- 2]"
    using s ts p3 p0 m v2 v0 by (intro exI[of _ st] exI[of _ w']) simp
  with r show ?thesis by (rule conjI)
qed






end
